theory Spec2Isabelle
  imports Main
begin

section \<open>The standard library the widget is written against\<close>

text \<open>
  \<^verbatim>\<open>tkcalendar/calendar_.py\<close> stores its whole model in two
  \<^verbatim>\<open>datetime.date\<close> values and computes with Python's
  \<^verbatim>\<open>datetime\<close> and \<^verbatim>\<open>calendar\<close> modules.  This section
  transcribes the functions of those two modules that the widget calls (CPython 3.8 and
  later, \<^verbatim>\<open>Lib/_pydatetime.py\<close> and \<^verbatim>\<open>Lib/calendar.py\<close>, with
  the argument conversion of the C implementation \<^verbatim>\<open>_datetime\<close> that CPython
  runs).  Python integers are unbounded, hence \<open>int\<close>; Python's \<^verbatim>\<open>//\<close>
  and \<^verbatim>\<open>%\<close> round towards minus infinity, as \<open>div\<close> and \<open>mod\<close>
  on \<open>int\<close> do.
\<close>

subsection \<open>Exceptions\<close>

text \<open>
  \<open>InvalidDate t\<close> is the exception the widget itself raises,
  \<^verbatim>\<open>type(e)("%r is not a valid date." % t)\<close>: it carries the text \<open>t\<close> that the
  message is formatted from.  \<open>TclError\<close> is the exception of a Tk command that fails.
\<close>

datatype py_error =
    ValueError
  | OverflowError
  | TypeError
  | KeyError
  | IndexError
  | IllegalMonthError
  | AttributeError
  | TclError
  | InvalidDate string

subsection \<open>datetime.date\<close>

record date =
  year :: int
  month :: int
  day :: int

definition MINYEAR :: int where
  "MINYEAR = 1"

definition MAXYEAR :: int where
  "MAXYEAR = 9999"

definition MAXORDINAL :: int where
  "MAXORDINAL = 3652059"

definition DAYS_IN_MONTH :: "int list" where
  "DAYS_IN_MONTH = [-1, 31, 28, 31, 30, 31, 30, 31, 31, 30, 31, 30, 31]"

definition DAYS_BEFORE_MONTH :: "int list" where
  "DAYS_BEFORE_MONTH = [-1, 0, 31, 59, 90, 120, 151, 181, 212, 243, 273, 304, 334]"

definition is_leap :: "int \<Rightarrow> bool" where
  "is_leap y \<longleftrightarrow> y mod 4 = 0 \<and> (y mod 100 \<noteq> 0 \<or> y mod 400 = 0)"

definition days_before_year :: "int \<Rightarrow> int" where
  "days_before_year y = (let y1 = y - 1 in y1 * 365 + y1 div 4 - y1 div 100 + y1 div 400)"

definition days_in_month :: "int \<Rightarrow> int \<Rightarrow> int" where
  "days_in_month y m = (if m = 2 \<and> is_leap y then 29 else DAYS_IN_MONTH ! nat m)"

definition days_before_month :: "int \<Rightarrow> int \<Rightarrow> int" where
  "days_before_month y m = DAYS_BEFORE_MONTH ! nat m + (if m > 2 \<and> is_leap y then 1 else 0)"

definition ymd2ord :: "int \<Rightarrow> int \<Rightarrow> int \<Rightarrow> int" where
  "ymd2ord y m d = days_before_year y + days_before_month y m + d"

definition DI400Y :: int where
  "DI400Y = 146097"

definition DI100Y :: int where
  "DI100Y = 36524"

definition DI4Y :: int where
  "DI4Y = 1461"

text \<open>
  \<^verbatim>\<open>_ord2ymd\<close>: the year by three successive \<^verbatim>\<open>divmod\<close>s over the 400-, 100- and
  4-year cycles, the month by the estimate \<^verbatim>\<open>(n + 50) >> 5\<close>, corrected downwards
  when it is one too large.
\<close>

definition ord2ymd :: "int \<Rightarrow> int \<times> int \<times> int" where
  "ord2ymd n0 =
    (let n = n0 - 1;
         n400 = n div DI400Y; n = n mod DI400Y;
         y = n400 * 400 + 1;
         n100 = n div DI100Y; n = n mod DI100Y;
         n4 = n div DI4Y; n = n mod DI4Y;
         n1 = n div 365; n = n mod 365;
         y = y + n100 * 100 + n4 * 4 + n1
     in if n1 = 4 \<or> n100 = 4 then (y - 1, 12, 31)
        else
          let leapyear = (n1 = 3 \<and> (n4 \<noteq> 24 \<or> n100 = 3));
              m = (n + 50) div 32;
              preceding = DAYS_BEFORE_MONTH ! nat m + (if m > 2 \<and> leapyear then 1 else 0)
          in if preceding > n
             then let m' = m - 1;
                      preceding' = preceding
                        - (DAYS_IN_MONTH ! nat m' + (if m' = 2 \<and> leapyear then 1 else 0))
                  in (y, m', n - preceding' + 1)
             else (y, m, n - preceding + 1))"

text \<open>
  \<^verbatim>\<open>date(year, month, day)\<close> first converts its three arguments to C
  \<^verbatim>\<open>int\<close>s and raises \<^verbatim>\<open>OverflowError\<close> when one of them does not fit
  (all three are converted before any is checked).  Then it checks the fields and raises
  \<^verbatim>\<open>ValueError\<close> on a year outside 1..9999, a month outside 1..12 or a day the
  month does not have.  \<^verbatim>\<open>d.replace(...)\<close> converts and checks in the same way.
\<close>

definition INT_MIN :: int where
  "INT_MIN = - 2147483648"

definition INT_MAX :: int where
  "INT_MAX = 2147483647"

definition fits_c_int :: "int \<Rightarrow> bool" where
  "fits_c_int n \<longleftrightarrow> INT_MIN \<le> n \<and> n \<le> INT_MAX"

definition date_valid :: "date \<Rightarrow> bool" where
  "date_valid d \<longleftrightarrow>
     MINYEAR \<le> year d \<and> year d \<le> MAXYEAR \<and> 1 \<le> month d \<and> month d \<le> 12 \<and>
     1 \<le> day d \<and> day d \<le> days_in_month (year d) (month d)"

definition mk_date :: "int \<Rightarrow> int \<Rightarrow> int \<Rightarrow> date" where
  "mk_date y m d = \<lparr>year = y, month = m, day = d\<rparr>"

definition date_new :: "int \<Rightarrow> int \<Rightarrow> int \<Rightarrow> py_error + date" where
  "date_new y m d =
     (if \<not> (fits_c_int y \<and> fits_c_int m \<and> fits_c_int d) then Inl OverflowError
      else if \<not> (MINYEAR \<le> y \<and> y \<le> MAXYEAR) then Inl ValueError
      else if \<not> (1 \<le> m \<and> m \<le> 12) then Inl ValueError
      else if \<not> (1 \<le> d \<and> d \<le> days_in_month y m) then Inl ValueError
      else Inr (mk_date y m d))"

definition toordinal :: "date \<Rightarrow> int" where
  "toordinal d = ymd2ord (year d) (month d) (day d)"

definition fromordinal :: "int \<Rightarrow> date" where
  "fromordinal n = (case ord2ymd n of (y, m, d) \<Rightarrow> mk_date y m d)"

text \<open>
  \<^verbatim>\<open>d + timedelta(days=n)\<close>: \<^verbatim>\<open>OverflowError\<close> when the result leaves
  0001-01-01 .. 9999-12-31.
\<close>

definition date_add_days :: "date \<Rightarrow> int \<Rightarrow> py_error + date" where
  "date_add_days d n =
     (let ordinal = toordinal d + n
      in if 0 < ordinal \<and> ordinal \<le> MAXORDINAL then Inr (fromordinal ordinal)
         else Inl OverflowError)"

definition replace_day :: "date \<Rightarrow> int \<Rightarrow> py_error + date" where
  "replace_day d dy = date_new (year d) (month d) dy"

definition replace_year :: "date \<Rightarrow> int \<Rightarrow> py_error + date" where
  "replace_year d y = date_new y (month d) (day d)"

definition date_weekday :: "date \<Rightarrow> int" where
  "date_weekday d = (toordinal d + 6) mod 7"

definition isoweek1monday :: "int \<Rightarrow> int" where
  "isoweek1monday y =
     (let firstday = ymd2ord y 1 1;
          firstweekday = (firstday + 6) mod 7;
          week1monday = firstday - firstweekday
      in if firstweekday > 3 then week1monday + 7 else week1monday)"

text \<open>\<^verbatim>\<open>isocalendar()\<close>: the ISO year, the ISO week (1..53) and the ISO weekday (1..7).\<close>

definition isocalendar :: "date \<Rightarrow> int \<times> int \<times> int" where
  "isocalendar d =
     (let y = year d;
          week1monday = isoweek1monday y;
          today = ymd2ord (year d) (month d) (day d);
          week = (today - week1monday) div 7;
          wd = (today - week1monday) mod 7
      in if week < 0 then
           (let y' = y - 1;
                week1monday' = isoweek1monday y';
                week' = (today - week1monday') div 7;
                wd' = (today - week1monday') mod 7
            in (y', week' + 1, wd' + 1))
         else if week \<ge> 52 \<and> today \<ge> isoweek1monday (y + 1) then (y + 1, 1, wd + 1)
         else (y, week + 1, wd + 1))"

subsection \<open>Raising, and sequencing what may raise\<close>

definition ebind :: "py_error + 'a \<Rightarrow> ('a \<Rightarrow> py_error + 'b) \<Rightarrow> py_error + 'b" where
  "ebind r f = (case r of Inl e \<Rightarrow> Inl e | Inr x \<Rightarrow> f x)"

text \<open>\<^verbatim>\<open>xs[i]\<close> for \<open>i \<ge> 0\<close> and \<^verbatim>\<open>xs[-1]\<close>, which raise \<^verbatim>\<open>IndexError\<close>.\<close>

definition py_nth :: "'a list \<Rightarrow> nat \<Rightarrow> py_error + 'a" where
  "py_nth xs i = (if i < length xs then Inr (xs ! i) else Inl IndexError)"

definition py_last :: "'a list \<Rightarrow> py_error + 'a" where
  "py_last xs = (if xs = [] then Inl IndexError else Inr (last xs))"

subsection \<open>The calendar module\<close>

definition MONDAY :: int where
  "MONDAY = 0"

definition mdays :: "int list" where
  "mdays = [0, 31, 28, 31, 30, 31, 30, 31, 31, 30, 31, 30, 31]"

definition isleap :: "int \<Rightarrow> bool" where
  "isleap y \<longleftrightarrow> y mod 4 = 0 \<and> (y mod 100 \<noteq> 0 \<or> y mod 400 = 0)"

text \<open>
  \<^verbatim>\<open>calendar.weekday\<close> maps a year outside 1..9999 into the 400-year cycle before it
  builds the date.
\<close>

definition cal_weekday :: "int \<Rightarrow> int \<Rightarrow> int \<Rightarrow> py_error + int" where
  "cal_weekday y m d =
     (let y' = (if \<not> (MINYEAR \<le> y \<and> y \<le> MAXYEAR) then 2000 + y mod 400 else y)
      in ebind (date_new y' m d) (\<lambda>dt. Inr (date_weekday dt)))"

definition monthrange :: "int \<Rightarrow> int \<Rightarrow> py_error + (int \<times> int)" where
  "monthrange y m =
     (if \<not> (1 \<le> m \<and> m \<le> 12) then Inl IllegalMonthError
      else ebind (cal_weekday y m 1) (\<lambda>day1.
        Inr (day1, mdays ! nat m + (if m = 2 \<and> isleap y then 1 else 0))))"

definition monthlen :: "int \<Rightarrow> int \<Rightarrow> int" where
  "monthlen y m = mdays ! nat m + (if m = 2 \<and> isleap y then 1 else 0)"

definition prevmonth :: "int \<Rightarrow> int \<Rightarrow> int \<times> int" where
  "prevmonth y m = (if m = 1 then (y - 1, 12) else (y, m - 1))"

definition nextmonth :: "int \<Rightarrow> int \<Rightarrow> int \<times> int" where
  "nextmonth y m = (if m = 12 then (y + 1, 1) else (y, m + 1))"

text \<open>
  \<^verbatim>\<open>Calendar.itermonthdays3\<close>: the days of the weeks that overlap the month, as
  (year, month, day) triples; \<open>fwd\<close> is \<^verbatim>\<open>self.firstweekday\<close>.  Python's
  \<^verbatim>\<open>range(a, b)\<close> is \<open>[a..b - 1]\<close>.
\<close>

definition itermonthdays3 :: "int \<Rightarrow> int \<Rightarrow> int \<Rightarrow> py_error + (int \<times> int \<times> int) list" where
  "itermonthdays3 fwd y m =
     ebind (monthrange y m) (\<lambda>(day1, ndays).
       let days_before = (day1 - fwd) mod 7;
           days_after = (fwd - day1 - ndays) mod 7
       in case prevmonth y m of (py, pm) \<Rightarrow>
          let end = monthlen py pm + 1
          in case nextmonth y m of (ny, nm) \<Rightarrow>
             Inr (map (\<lambda>d. (py, pm, d)) [end - days_before .. end - 1]
                  @ map (\<lambda>d. (y, m, d)) [1 .. ndays]
                  @ map (\<lambda>d. (ny, nm, d)) [1 .. days_after]))"

text \<open>
  \<^verbatim>\<open>Calendar.itermonthdates\<close> builds a \<^verbatim>\<open>datetime.date\<close> from every triple;
  \<^verbatim>\<open>monthdatescalendar\<close> collects them in a list, so a single triple outside
  0001-01-01 .. 9999-12-31 makes the whole call raise \<^verbatim>\<open>ValueError\<close>.
\<close>

fun dates_of :: "(int \<times> int \<times> int) list \<Rightarrow> py_error + date list" where
  "dates_of [] = Inr []"
| "dates_of ((y, m, d) # ts) =
     ebind (date_new y m d) (\<lambda>dt. ebind (dates_of ts) (\<lambda>ds. Inr (dt # ds)))"

definition itermonthdates :: "int \<Rightarrow> int \<Rightarrow> int \<Rightarrow> py_error + date list" where
  "itermonthdates fwd y m = ebind (itermonthdays3 fwd y m) dates_of"

text \<open>\<^verbatim>\<open>[dates[i:i+7] for i in range(0, len(dates), 7)]\<close>\<close>

definition weeks_of :: "'a list \<Rightarrow> 'a list list" where
  "weeks_of ds = map (\<lambda>i. take 7 (drop (7 * i) ds)) [0 ..< (length ds + 6) div 7]"

definition monthdatescalendar :: "int \<Rightarrow> int \<Rightarrow> int \<Rightarrow> py_error + date list list" where
  "monthdatescalendar fwd y m = ebind (itermonthdates fwd y m) (\<lambda>ds. Inr (weeks_of ds))"

section \<open>The Calendar widget\<close>

subsection \<open>State\<close>

text \<open>
  The model keeps the two dates of the widget, the options its methods branch on, the text
  and style of the 6 x 7 day labels and of the 6 week-number labels, the content of the
  bound \<^verbatim>\<open>StringVar\<close> and the virtual events generated so far.  Fonts, colours,
  the header labels and geometry are left out.

  The labels are objects created once by the constructor and configured in place, so they
  are a store indexed by (row, column).  A label's text is \<^verbatim>\<open>str(n)\<close> for a day or
  week number \<open>n\<close>, or empty before the first display: \<open>int option\<close>.  A day label's style
  is \<^verbatim>\<open>week_days[i_day] + months[...]\<close>, that is one of
  \<^verbatim>\<open>normal\<close>, \<^verbatim>\<open>we\<close>, \<^verbatim>\<open>normal_om\<close>, \<^verbatim>\<open>we_om\<close>, or the selection
  style \<^verbatim>\<open>sel\<close>.

  The source validates the options \<^verbatim>\<open>selectmode\<close> and \<^verbatim>\<open>state\<close> by
  equality (\<^verbatim>\<open>not in\<close>) and afterwards reads them by identity only:
  \<^verbatim>\<open>is "day"\<close> and \<^verbatim>\<open>is 'normal'\<close>.  A string literal of the source is
  interned by CPython, so a string is identical to it when it is the interned string of the
  same characters; a string built at run time can be equal to a literal without being
  identical to it.  An option value is therefore a string with its characters and whether it
  is the interned one (\<open>str_value\<close>).  Of the stored option the model keeps the outcome
  of the only test the methods make: \<open>self_selectmode\<close> is \<open>Mode_day\<close> when
  \<^verbatim>\<open>self._properties["selectmode"] is "day"\<close> holds, which is also when the day
  labels are bound to \<^verbatim>\<open>_on_click\<close>, and \<open>Mode_none\<close> otherwise;
  \<open>self_state\<close> is \<open>Normal\<close> when \<^verbatim>\<open>self._properties['state'] is 'normal'\<close>
  holds and \<open>Disabled\<close> otherwise.

  \<^verbatim>\<open>strptime(text, "%x")\<close> returns a \<^verbatim>\<open>datetime\<close>; every operation the
  widget applies to it reads the year, month and day only, so the model keeps its date.
\<close>

record str_value =
  chars :: string
  interned :: bool

definition literal :: "string \<Rightarrow> str_value" where
  "literal cs = \<lparr>chars = cs, interned = True\<rparr>"

definition py_eq :: "str_value \<Rightarrow> string \<Rightarrow> bool" where
  "py_eq v cs \<longleftrightarrow> chars v = cs"

definition py_is :: "str_value \<Rightarrow> string \<Rightarrow> bool" where
  "py_is v cs \<longleftrightarrow> interned v \<and> chars v = cs"

datatype selectmode = Mode_none | Mode_day

datatype wstate = Normal | Disabled

datatype day_kind = Kind_normal | Kind_we

datatype month_kind = This_month | Other_month

datatype style = Day_style day_kind month_kind | Sel

datatype event = CalendarSelected

record label =
  lbl_text :: "int option"
  lbl_style :: style

record widget =
  self_sel_date :: "date option"
  self_date :: date
  self_textvariable :: "string option"
  self_selectmode :: selectmode
  self_state :: wstate
  self_week_nbs :: "nat \<Rightarrow> int option"
  self_calendar :: "nat \<times> nat \<Rightarrow> label"
  events :: "event list"

text \<open>
  The locale enters through \<^verbatim>\<open>strftime("%x")\<close> and \<^verbatim>\<open>strptime(text, "%x")\<close>
  only.  Formatting is a function of the date; parsing yields the fields it read or fails,
  and the \<^verbatim>\<open>datetime\<close> constructor then rejects fields that are no date.
\<close>

record locale_ops =
  strftime_x :: "date \<Rightarrow> string"
  strptime_x :: "string \<Rightarrow> (int \<times> int \<times> int) option"

definition py_strptime :: "locale_ops \<Rightarrow> string \<Rightarrow> py_error + date" where
  "py_strptime L txt =
     (case strptime_x L txt of
        None \<Rightarrow> Inl ValueError
      | Some (y, m, d) \<Rightarrow> date_new y m d)"

text \<open>
  An operation of the widget returns the exception it raised, if any, and the state it
  left behind: a Python exception does not undo the assignments made before it.
\<close>

type_synonym outcome = "py_error option \<times> widget"

definition andthen :: "outcome \<Rightarrow> (widget \<Rightarrow> outcome) \<Rightarrow> outcome" where
  "andthen r f = (case r of (None, s) \<Rightarrow> f s | (Some e, s) \<Rightarrow> (Some e, s))"

definition configure_day :: "nat \<Rightarrow> nat \<Rightarrow> int option \<Rightarrow> style \<Rightarrow> widget \<Rightarrow> widget" where
  "configure_day i j txt sty s =
     s\<lparr>self_calendar := (self_calendar s)((i, j) := \<lparr>lbl_text = txt, lbl_style = sty\<rparr>)\<rparr>"

definition configure_style :: "nat \<Rightarrow> nat \<Rightarrow> style \<Rightarrow> widget \<Rightarrow> widget" where
  "configure_style i j sty s =
     s\<lparr>self_calendar := (self_calendar s)((i, j) := (self_calendar s (i, j))\<lparr>lbl_style := sty\<rparr>)\<rparr>"

definition configure_week_nb :: "nat \<Rightarrow> int \<Rightarrow> widget \<Rightarrow> widget" where
  "configure_week_nb i n s = s\<lparr>self_week_nbs := (self_week_nbs s)(i := Some n)\<rparr>"

subsection \<open>Highlighting the selection\<close>

text \<open>\<^verbatim>\<open>_display_selection\<close>\<close>

definition display_selection :: "widget \<Rightarrow> widget" where
  "display_selection s =
     (case self_sel_date s of
        None \<Rightarrow> s
      | Some sd \<Rightarrow>
          if year sd = year (self_date s) then
            (case isocalendar sd of (uu, w, d) \<Rightarrow>
               let wn = fst (snd (isocalendar (self_date s)));
                   w = w - wn;
                   w = w mod (max 52 wn)
               in if 0 \<le> w \<and> w < 6
                  then configure_style (nat w) (nat (d - 1)) Sel s
                  else s)
          else s)"

text \<open>\<^verbatim>\<open>_remove_selection\<close>\<close>

definition remove_selection :: "widget \<Rightarrow> widget" where
  "remove_selection s =
     (case self_sel_date s of
        None \<Rightarrow> s
      | Some sd \<Rightarrow>
          if year sd = year (self_date s) then
            (case isocalendar sd of (uu, w, d) \<Rightarrow>
               let wn = fst (snd (isocalendar (self_date s)));
                   w = w - wn;
                   w = w mod (max 52 wn)
               in if w \<ge> 0 \<and> w < 6 then
                    (if month sd = month (self_date s) then
                       (if d < 6
                        then configure_style (nat w) (nat (d - 1)) (Day_style Kind_normal This_month) s
                        else configure_style (nat w) (nat (d - 1)) (Day_style Kind_we This_month) s)
                     else
                       (if d < 6
                        then configure_style (nat w) (nat (d - 1)) (Day_style Kind_normal Other_month) s
                        else configure_style (nat w) (nat (d - 1)) (Day_style Kind_we Other_month) s))
                  else s)
          else s)"

subsection \<open>Displaying a month\<close>

text \<open>Lines 536-540 of \<^verbatim>\<open>_display_calendar\<close>: the month after the displayed one.\<close>

definition next_m_y :: "int \<Rightarrow> int \<Rightarrow> int \<times> int" where
  "next_m_y mo yr =
     (let next_m = mo + 1; y = yr
      in if next_m = 13 then (1, y + 1) else (next_m, y))"

text \<open>
  Lines 541-548: a calendar of fewer than six weeks is filled up with weeks of the next
  month's calendar.
\<close>

definition extend_cal :: "int \<Rightarrow> int \<Rightarrow> int \<Rightarrow> date list list \<Rightarrow> py_error + date list list" where
  "extend_cal mo y next_m cal =
     (if length cal < 6 then
        ebind (py_last cal) (\<lambda>lastweek. ebind (py_last lastweek) (\<lambda>lastday.
          let i = (if month lastday = mo then 0 else 1)
          in ebind (monthdatescalendar MONDAY y next_m) (\<lambda>nc. ebind (py_nth nc i) (\<lambda>week.
               let cal = cal @ [week]
               in if length cal < 6 then
                    ebind (monthdatescalendar MONDAY y next_m) (\<lambda>nc'.
                      ebind (py_nth nc' (i + 1)) (\<lambda>week'. Inr (cal @ [week'])))
                  else Inr cal))))
      else Inr cal)"

text \<open>Lines 534-548: the dates \<^verbatim>\<open>cal\<close> that the grid shows.\<close>

definition display_dates :: "int \<Rightarrow> int \<Rightarrow> py_error + date list list" where
  "display_dates yr mo =
     ebind (monthdatescalendar MONDAY yr mo) (\<lambda>cal.
       case next_m_y mo yr of (next_m, y) \<Rightarrow> extend_cal mo y next_m cal)"

definition week_days :: "nat \<Rightarrow> day_kind" where
  "week_days i = (if i = 5 \<or> i = 6 then Kind_we else Kind_normal)"

text \<open>
  The dictionary \<^verbatim>\<open>months = {month: ..., next_m: ..., prev_m: ...}\<close>: a later entry
  replaces an earlier one with the same key, and a key that is none of the three raises
  \<^verbatim>\<open>KeyError\<close>.
\<close>

definition months_lookup :: "int \<Rightarrow> int \<Rightarrow> int \<Rightarrow> int \<Rightarrow> py_error + month_kind" where
  "months_lookup mo next_m prev_m k =
     (if k = prev_m then Inr Other_month
      else if k = next_m then Inr Other_month
      else if k = mo then Inr This_month
      else Inl KeyError)"

text \<open>The inner loop \<^verbatim>\<open>for i_day in range(7)\<close> and the outer loop over the weeks.\<close>

fun fill_days :: "int \<Rightarrow> int \<Rightarrow> int \<Rightarrow> date list list \<Rightarrow> nat \<Rightarrow> nat list \<Rightarrow> widget \<Rightarrow> outcome" where
  "fill_days mo next_m prev_m cal i_week [] s = (None, s)"
| "fill_days mo next_m prev_m cal i_week (i_day # rest) s =
     (case ebind (py_nth cal i_week) (\<lambda>week. py_nth week i_day) of
        Inl e \<Rightarrow> (Some e, s)
      | Inr cell \<Rightarrow>
          (case months_lookup mo next_m prev_m (month cell) of
             Inl e \<Rightarrow> (Some e, s)
           | Inr mk \<Rightarrow>
               fill_days mo next_m prev_m cal i_week rest
                 (configure_day i_week i_day (Some (day cell)) (Day_style (week_days i_day) mk) s)))"

fun fill_weeks :: "int \<Rightarrow> int \<Rightarrow> int \<Rightarrow> date list list \<Rightarrow> int \<Rightarrow> int \<Rightarrow> nat list \<Rightarrow> widget \<Rightarrow> outcome" where
  "fill_weeks mo next_m prev_m cal week_nb modul [] s = (None, s)"
| "fill_weeks mo next_m prev_m cal week_nb modul (i_week # rest) s =
     andthen
       (fill_days mo next_m prev_m cal i_week [0 ..< 7]
          (configure_week_nb i_week ((week_nb + int i_week - 1) mod modul + 1) s))
       (fill_weeks mo next_m prev_m cal week_nb modul rest)"

text \<open>\<^verbatim>\<open>_display_calendar\<close>\<close>

definition display_calendar :: "widget \<Rightarrow> outcome" where
  "display_calendar s =
     (let yr = year (self_date s); mo = month (self_date s)
      in case display_dates yr mo of
           Inl e \<Rightarrow> (Some e, s)
         | Inr cal \<Rightarrow>
             let next_m = fst (next_m_y mo yr);
                 prev_m = (mo - 2) mod 12 + 1;
                 week_nb = fst (snd (isocalendar (self_date s)));
                 modul = max week_nb 52
             in andthen (fill_weeks mo next_m prev_m cal week_nb modul [0 ..< 6] s)
                  (\<lambda>s'. (None, display_selection s')))"

subsection \<open>Navigation callbacks\<close>

text \<open>\<^verbatim>\<open>_next_month\<close>, \<^verbatim>\<open>_prev_month\<close>, \<^verbatim>\<open>_next_year\<close>, \<^verbatim>\<open>_prev_year\<close>\<close>

definition next_month :: "widget \<Rightarrow> outcome" where
  "next_month s =
     (let yr = year (self_date s); mo = month (self_date s)
      in case monthrange yr mo of
           Inl e \<Rightarrow> (Some e, s)
         | Inr (day1, ndays) \<Rightarrow>
             (case date_add_days (self_date s) ndays of
                Inl e \<Rightarrow> (Some e, s)
              | Inr d \<Rightarrow> display_calendar (s\<lparr>self_date := d\<rparr>)))"

definition prev_month :: "widget \<Rightarrow> outcome" where
  "prev_month s =
     (case date_add_days (self_date s) (- 1) of
        Inl e \<Rightarrow> (Some e, s)
      | Inr d \<Rightarrow>
          (case replace_day d 1 of
             Inl e \<Rightarrow> (Some e, s\<lparr>self_date := d\<rparr>)
           | Inr d' \<Rightarrow> display_calendar (s\<lparr>self_date := d'\<rparr>)))"

definition next_year :: "widget \<Rightarrow> outcome" where
  "next_year s =
     (let yr = year (self_date s)
      in case replace_year (self_date s) (yr + 1) of
           Inl e \<Rightarrow> (Some e, s)
         | Inr d \<Rightarrow> display_calendar (s\<lparr>self_date := d\<rparr>))"

definition prev_year :: "widget \<Rightarrow> outcome" where
  "prev_year s =
     (let yr = year (self_date s)
      in case replace_year (self_date s) (yr - 1) of
           Inl e \<Rightarrow> (Some e, s)
         | Inr d \<Rightarrow> display_calendar (s\<lparr>self_date := d\<rparr>))"

subsection \<open>The bound text variable\<close>

text \<open>
  \<^verbatim>\<open>_textvariable_trace\<close>, the write trace of the bound variable.  Inside the
  trace Tcl disables the traces of the variable, so the \<^verbatim>\<open>set\<close> calls of the
  \<^verbatim>\<open>except\<close> branch only store the text.
\<close>

definition textvariable_trace :: "locale_ops \<Rightarrow> widget \<Rightarrow> outcome" where
  "textvariable_trace L s =
     (if self_selectmode s = Mode_day then
        (case self_textvariable s of
           None \<Rightarrow> (Some AttributeError, s)
         | Some txt \<Rightarrow>
             if txt = [] then (None, (remove_selection s)\<lparr>self_sel_date := None\<rparr>)
             else
               (case py_strptime L txt of
                  Inl e \<Rightarrow>
                    (Some (InvalidDate txt),
                     (case self_sel_date s of
                        None \<Rightarrow> s\<lparr>self_textvariable := Some []\<rparr>
                      | Some sd \<Rightarrow> s\<lparr>self_textvariable := Some (strftime_x L sd)\<rparr>))
                | Inr d \<Rightarrow>
                    (let s1 = s\<lparr>self_sel_date := Some d\<rparr>
                     in case replace_day d 1 of
                          Inl e \<Rightarrow> (Some e, s1)
                        | Inr d1 \<Rightarrow>
                            andthen (display_calendar (s1\<lparr>self_date := d1\<rparr>))
                              (\<lambda>s2. (None, display_selection s2)))))
      else (None, s))"

text \<open>
  \<^verbatim>\<open>self._textvariable.set(v)\<close> outside the trace, and a write of the variable by the
  application: the text is stored and the write trace, registered by the constructor, runs.
  Tkinter wraps the trace (\<^verbatim>\<open>CallWrapper\<close>): an exception raised by it is reported and
  not propagated to the writer.
\<close>

definition textvariable_set :: "locale_ops \<Rightarrow> string \<Rightarrow> widget \<Rightarrow> widget" where
  "textvariable_set L v s = snd (textvariable_trace L (s\<lparr>self_textvariable := Some v\<rparr>))"

definition write_textvariable :: "locale_ops \<Rightarrow> string \<Rightarrow> widget \<Rightarrow> widget" where
  "write_textvariable L v s =
     (case self_textvariable s of
        None \<Rightarrow> s
      | Some old \<Rightarrow> textvariable_set L v s)"

subsection \<open>Mouse clicks\<close>

text \<open>
  \<^verbatim>\<open>_on_click\<close>; the event carries the label clicked, here its row and column.
  \<^verbatim>\<open>label in self._calendar[0]\<close> holds for the labels of row 0.
\<close>

definition on_click :: "locale_ops \<Rightarrow> nat \<times> nat \<Rightarrow> widget \<Rightarrow> outcome" where
  "on_click L rc s =
     (if self_state s = Normal then
        (let lbl = self_calendar s rc;
             dy = lbl_text lbl;
             sty = lbl_style lbl
         in andthen
              (if sty = Day_style Kind_normal Other_month \<or> sty = Day_style Kind_we Other_month
               then (if fst rc = 0 then prev_month s else next_month s)
               else (None, s))
              (\<lambda>s1. case dy of
                 None \<Rightarrow> (None, s1)
               | Some dn \<Rightarrow>
                   (let yr = year (self_date s1); mo = month (self_date s1);
                        s2 = remove_selection s1
                    in case date_new yr mo dn of
                         Inl e \<Rightarrow> (Some e, s2)
                       | Inr d \<Rightarrow>
                           (let s3 = display_selection (s2\<lparr>self_sel_date := Some d\<rparr>);
                                s4 = (case self_textvariable s3 of
                                        None \<Rightarrow> s3
                                      | Some old \<Rightarrow> textvariable_set L (strftime_x L d) s3)
                            in (None, s4\<lparr>events := events s4 @ [CalendarSelected]\<rparr>)))))
      else (None, s))"

text \<open>
  The day labels are bound to \<^verbatim>\<open>_on_click\<close> exactly while \<^verbatim>\<open>selectmode\<close> is
  \<^verbatim>\<open>"day"\<close> (constructor and \<^verbatim>\<open>__setitem__\<close>), and there are 6 x 7 of them.
\<close>

definition user_click :: "locale_ops \<Rightarrow> nat \<times> nat \<Rightarrow> widget \<Rightarrow> outcome" where
  "user_click L rc s =
     (if self_selectmode s = Mode_day \<and> fst rc < 6 \<and> snd rc < 7 then on_click L rc s
      else (None, s))"

subsection \<open>Selection handling\<close>

definition selection_get :: "widget \<Rightarrow> date option" where
  "selection_get s = (if self_selectmode s = Mode_day then self_sel_date s else None)"

definition get_date :: "locale_ops \<Rightarrow> widget \<Rightarrow> string" where
  "get_date L s = (case self_sel_date s of Some sd \<Rightarrow> strftime_x L sd | None \<Rightarrow> [])"

text \<open>
  The argument of \<^verbatim>\<open>selection_set\<close>: \<^verbatim>\<open>None\<close>, a date object or a string.
  In the definition \<open>stored d\<close> is what the method does once it has assigned the date
  \<open>d\<close> to \<^verbatim>\<open>self._sel_date\<close> (lines 689-693); the write of the variable runs the
  trace, which may assign \<^verbatim>\<open>self._sel_date\<close> again before it is read.
\<close>

datatype sel_arg = Arg_None | Arg_date date | Arg_str string

definition selection_set :: "locale_ops \<Rightarrow> sel_arg \<Rightarrow> widget \<Rightarrow> outcome" where
  "selection_set L a s =
     (if self_selectmode s = Mode_day \<and> self_state s = Normal then
        (let stored = (\<lambda>d.
               let s1 = s\<lparr>self_sel_date := Some d\<rparr>;
                   s2 = (case self_textvariable s1 of
                           None \<Rightarrow> s1
                         | Some old \<Rightarrow> textvariable_set L (strftime_x L d) s1)
               in case self_sel_date s2 of
                    None \<Rightarrow> (Some AttributeError, s2)
                  | Some sd \<Rightarrow>
                      (case replace_day sd 1 of
                         Inl e \<Rightarrow> (Some e, s2)
                       | Inr d1 \<Rightarrow>
                           andthen (display_calendar (s2\<lparr>self_date := d1\<rparr>))
                             (\<lambda>s3. (None, display_selection s3))))
         in case a of
              Arg_None \<Rightarrow>
                (let s1 = (remove_selection s)\<lparr>self_sel_date := None\<rparr>
                 in (None, (case self_textvariable s1 of
                              None \<Rightarrow> s1
                            | Some old \<Rightarrow> textvariable_set L [] s1)))
            | Arg_date d \<Rightarrow> stored d
            | Arg_str txt \<Rightarrow>
                (case py_strptime L txt of
                   Inl e \<Rightarrow> (Some (InvalidDate txt), s)
                 | Inr d \<Rightarrow> stored d))
      else (None, s))"

subsection \<open>Options\<close>

text \<open>
  \<^verbatim>\<open>__setitem__\<close> for the two options the operations above read:
  \<^verbatim>\<open>cal["selectmode"] = v\<close> and \<^verbatim>\<open>cal["state"] = v\<close>, or
  \<^verbatim>\<open>configure\<close> with the keyword, so the key is the literal.

  For \<^verbatim>\<open>selectmode\<close> the value is tested by identity: the literal
  \<^verbatim>\<open>"none"\<close> unbinds the day labels, the literal \<^verbatim>\<open>"day"\<close> binds them, and
  any other value, an equal string that is not the literal included, raises
  \<^verbatim>\<open>ValueError\<close> before the option is stored.

  For \<^verbatim>\<open>state\<close> the value is validated by equality and stored; the methods then
  test the stored value with \<^verbatim>\<open>is 'normal'\<close>, so an equal string that is not the
  literal \<^verbatim>\<open>'normal'\<close> leaves the widget unresponsive as
  \<^verbatim>\<open>'disabled'\<close> does.
\<close>

definition setitem_selectmode :: "str_value \<Rightarrow> widget \<Rightarrow> outcome" where
  "setitem_selectmode v s =
     (if py_is v ''none'' then (None, s\<lparr>self_selectmode := Mode_none\<rparr>)
      else if py_is v ''day'' then (None, s\<lparr>self_selectmode := Mode_day\<rparr>)
      else (Some ValueError, s))"

definition setitem_state :: "str_value \<Rightarrow> widget \<Rightarrow> outcome" where
  "setitem_state v s =
     (if \<not> py_eq v ''normal'' \<and> \<not> py_eq v ''disabled'' then (Some ValueError, s)
      else (None, s\<lparr>self_state := (if py_is v ''normal'' then Normal else Disabled)\<rparr>))"

subsection \<open>Construction\<close>

text \<open>
  The keyword arguments the model reads; \<open>kw_today\<close> is \<^verbatim>\<open>date.today()\<close> and
  \<open>kw_textvariable\<close> the content of the \<^verbatim>\<open>StringVar\<close> passed, if one is.
  \<^verbatim>\<open>year\<close>, \<^verbatim>\<open>month\<close> and \<^verbatim>\<open>day\<close> are Python integers and
  \<^verbatim>\<open>selectmode\<close> and \<^verbatim>\<open>state\<close> strings.  The value passed for
  \<^verbatim>\<open>borderwidth\<close> can be any object; the constructor only applies
  \<^verbatim>\<open>int\<close> to it, so \<open>kw_borderwidth\<close> gives what \<^verbatim>\<open>int(value)\<close>
  does: it returns an integer, or raises (\<^verbatim>\<open>ValueError\<close> on text that is no
  integer, \<^verbatim>\<open>TypeError\<close> on \<^verbatim>\<open>None\<close>).  The options of fonts, colours,
  cursor and locale, and the Tk calls that only they reach, are left out.
\<close>

record kwargs =
  kw_year :: "int option"
  kw_month :: "int option"
  kw_day :: "int option"
  kw_selectmode :: "str_value option"
  kw_state :: "str_value option"
  kw_borderwidth :: "(py_error + int) option"
  kw_textvariable :: "string option"
  kw_today :: date

text \<open>
  Lines 112-115: \<^verbatim>\<open>bd = int(kw.pop('borderwidth', 2))\<close>, where a
  \<^verbatim>\<open>ValueError\<close> is replaced by a \<^verbatim>\<open>ValueError\<close> with another message and
  any other exception propagates.
\<close>

definition init_borderwidth :: "kwargs \<Rightarrow> py_error + int" where
  "init_borderwidth kw =
     (case kw_borderwidth kw of
        None \<Rightarrow> Inr 2
      | Some r \<Rightarrow>
          (case r of
             Inl e \<Rightarrow> if e = ValueError then Inl ValueError else Inl e
           | Inr bd \<Rightarrow> Inr bd))"

text \<open>
  Line 292, \<^verbatim>\<open>pack(..., padx=bd, pady=bd)\<close>: Tk reads a pad amount as a screen
  distance into a C \<^verbatim>\<open>int\<close> and refuses a negative one
  (\<^verbatim>\<open>bad pad value: must be positive screen distance\<close>).  An amount above
  \<open>INT_MAX\<close> does not fit; the conversion then yields a negative number (on x86-64) and
  the amount is refused as well.
\<close>

definition pack_pad :: "int \<Rightarrow> py_error option" where
  "pack_pad bd = (if 0 \<le> bd \<and> bd \<le> INT_MAX then None else Some TclError)"

text \<open>
  Lines 118-135 of \<^verbatim>\<open>__init__\<close>: the initial selection, the text written for it, and
  the displayed month.  The constructor writes the variable before it registers the trace.
  The \<^verbatim>\<open>except\<close> clause of line 132 catches \<^verbatim>\<open>ValueError\<close> only: the
  \<^verbatim>\<open>OverflowError\<close> of a field that does not fit a C \<^verbatim>\<open>int\<close> leaves the
  constructor.
\<close>

definition init_dates :: "locale_ops \<Rightarrow> kwargs \<Rightarrow> py_error + (date option \<times> string option \<times> date)" where
  "init_dates L kw =
     (let today = kw_today kw
      in if (kw_month kw \<noteq> None \<or> kw_year kw \<noteq> None) \<and> kw_day kw = None then
           (let mo = (case kw_month kw of Some m \<Rightarrow> m | None \<Rightarrow> month today);
                yr = (case kw_year kw of Some y \<Rightarrow> y | None \<Rightarrow> year today)
            in ebind (date_new yr mo 1) (\<lambda>d. Inr (None, kw_textvariable kw, d)))
         else
           (let dy = (case kw_day kw of Some d \<Rightarrow> d | None \<Rightarrow> day today);
                mo = (case kw_month kw of Some m \<Rightarrow> m | None \<Rightarrow> month today);
                yr = (case kw_year kw of Some y \<Rightarrow> y | None \<Rightarrow> year today)
            in ebind (case date_new yr mo dy of
                        Inl e \<Rightarrow>
                          if e = ValueError then Inr (None, kw_textvariable kw) else Inl e
                      | Inr sd \<Rightarrow>
                          Inr (Some sd,
                               (case kw_textvariable kw of
                                  None \<Rightarrow> None
                                | Some old \<Rightarrow> Some (strftime_x L sd))))
                 (\<lambda>(sel, tv). ebind (date_new yr mo 1) (\<lambda>d. Inr (sel, tv, d)))))"

text \<open>
  \<^verbatim>\<open>__init__\<close>, in the order of the source: the conversion of
  \<^verbatim>\<open>borderwidth\<close> (lines 112-115), the dates (118-135), the check of
  \<^verbatim>\<open>selectmode\<close> by equality (139), the labels (no text, style
  \<^verbatim>\<open>normal\<close>), bound when \<^verbatim>\<open>selectmode is "day"\<close> (287), the packing with
  the border width (292), \<^verbatim>\<open>self.config(state=state)\<close> (294) and the first display
  (300).  A constructor that raises yields no widget.
\<close>

definition init :: "locale_ops \<Rightarrow> kwargs \<Rightarrow> py_error + widget" where
  "init L kw =
     (let state = (case kw_state kw of Some v \<Rightarrow> v | None \<Rightarrow> literal ''normal'')
      in ebind (init_borderwidth kw) (\<lambda>bd.
         ebind (init_dates L kw) (\<lambda>(sel, tv, d).
           let selectmode = (case kw_selectmode kw of Some v \<Rightarrow> v | None \<Rightarrow> literal ''day'')
           in if \<not> py_eq selectmode ''none'' \<and> \<not> py_eq selectmode ''day'' then Inl ValueError
              else
                (let s0 = \<lparr>self_sel_date = sel, self_date = d, self_textvariable = tv,
                           self_selectmode = (if py_is selectmode ''day'' then Mode_day else Mode_none),
                           self_state = (if py_is state ''normal'' then Normal else Disabled),
                           self_week_nbs = (\<lambda>i. None),
                           self_calendar =
                             (\<lambda>rc. \<lparr>lbl_text = None, lbl_style = Day_style Kind_normal This_month\<rparr>),
                           events = []\<rparr>
                 in case pack_pad bd of
                      Some e \<Rightarrow> Inl e
                    | None \<Rightarrow>
                        (case setitem_state state s0 of
                           (Some e, s1) \<Rightarrow> Inl e
                         | (None, s1) \<Rightarrow>
                             (case display_calendar s1 of
                                (Some e, s2) \<Rightarrow> Inl e
                              | (None, s2) \<Rightarrow> Inr s2))))))"

subsection \<open>Reachable states\<close>

text \<open>
  The states a program can bring a widget to: construct it, then navigate, click, set the
  selection, write the bound variable and set the two options, in any order.  An operation
  that raises leaves the widget in the state it had reached.
\<close>

fun arg_ok :: "sel_arg \<Rightarrow> bool" where
  "arg_ok (Arg_date d) = date_valid d"
| "arg_ok a = True"

inductive reachable :: "locale_ops \<Rightarrow> widget \<Rightarrow> bool" for L :: locale_ops where
  r_init: "date_valid (kw_today kw) \<Longrightarrow> init L kw = Inr s \<Longrightarrow> reachable L s"
| r_next_month: "reachable L s \<Longrightarrow> reachable L (snd (next_month s))"
| r_prev_month: "reachable L s \<Longrightarrow> reachable L (snd (prev_month s))"
| r_next_year: "reachable L s \<Longrightarrow> reachable L (snd (next_year s))"
| r_prev_year: "reachable L s \<Longrightarrow> reachable L (snd (prev_year s))"
| r_click: "reachable L s \<Longrightarrow> reachable L (snd (user_click L rc s))"
| r_selection_set: "reachable L s \<Longrightarrow> arg_ok a \<Longrightarrow> reachable L (snd (selection_set L a s))"
| r_write: "reachable L s \<Longrightarrow> reachable L (write_textvariable L v s)"
| r_selectmode: "reachable L s \<Longrightarrow> reachable L (snd (setitem_selectmode v s))"
| r_state: "reachable L s \<Longrightarrow> reachable L (snd (setitem_state v s))"

section \<open>Notions used in the statements and proofs\<close>

text \<open>
  The month and day that \<open>ord2ymd\<close> computes from the zero-based day of the year: the
  last part of its body, named so that lemmas can speak about it.
\<close>

definition md_of_yday :: "bool \<Rightarrow> int \<Rightarrow> int \<times> int" where
  "md_of_yday leapyear n =
     (let m = (n + 50) div 32;
          preceding = DAYS_BEFORE_MONTH ! nat m + (if m > 2 \<and> leapyear then 1 else 0)
      in if preceding > n
         then let m' = m - 1;
                  preceding' = preceding
                    - (DAYS_IN_MONTH ! nat m' + (if m' = 2 \<and> leapyear then 1 else 0))
              in (m', n - preceding' + 1)
         else (m, n - preceding + 1))"

text \<open>
  The date in cell \<open>k\<close> (row-major, from 0) of a grid that starts on the Monday on or
  before the first of the month \<open>(y, m)\<close>: the closed form that the displayed grid is
  compared with.
\<close>

definition first_weekday :: "int \<Rightarrow> int \<Rightarrow> int" where
  "first_weekday y m = (ymd2ord y m 1 + 6) mod 7"

definition cell :: "int \<Rightarrow> int \<Rightarrow> nat \<Rightarrow> date" where
  "cell y m k =
     (let db = first_weekday y m; nd = days_in_month y m
      in if int k < db then
           (case prevmonth y m of (py, pm) \<Rightarrow>
              mk_date py pm (days_in_month py pm - db + 1 + int k))
         else if int k < db + nd then mk_date y m (int k - db + 1)
         else (case nextmonth y m of (ny, nm) \<Rightarrow> mk_date ny nm (int k - db - nd + 1)))"

text \<open>
  The days of the next month in the last week of a month's calendar, and the number of
  days in its full weeks.
\<close>

definition days_after :: "int \<Rightarrow> int \<Rightarrow> int" where
  "days_after y m = (- first_weekday y m - days_in_month y m) mod 7"

definition ncells :: "int \<Rightarrow> int \<Rightarrow> nat" where
  "ncells y m = nat (first_weekday y m + days_in_month y m + days_after y m)"

definition nweeks :: "int \<Rightarrow> int \<Rightarrow> nat" where
  "nweeks y m = ncells y m div 7"

text \<open>The week of the next month's calendar that continues a month's calendar.\<close>

definition next_row :: "int \<Rightarrow> int \<Rightarrow> nat" where
  "next_row y m = (if days_after y m = 0 then 0 else 1)"

definition row :: "int \<Rightarrow> int \<Rightarrow> nat \<Rightarrow> date list" where
  "row y m i = map (\<lambda>j. cell y m (7 * i + j)) [0 ..< 7]"

definition grid :: "int \<Rightarrow> int \<Rightarrow> date list list" where
  "grid y m = map (\<lambda>i. map (\<lambda>j. cell y m (7 * i + j)) [0 ..< 7]) [0 ..< 6]"

text \<open>
  A displayed month the widget can show: a month of the years 1..9999 whose grid does not
  need a date after 9999-12-31.
\<close>

definition displayable :: "int \<Rightarrow> int \<Rightarrow> bool" where
  "displayable y m \<longleftrightarrow> 1 \<le> y \<and> y \<le> 9999 \<and> 1 \<le> m \<and> m \<le> 12 \<and> (y < 9999 \<or> m < 11)"

text \<open>
  What a successful run of the two loops of \<^verbatim>\<open>_display_calendar\<close> leaves on the
  labels: the week numbers, and for each day its number and the style of its weekday and
  month.
\<close>

definition shown_label :: "int \<Rightarrow> date list list \<Rightarrow> nat \<times> nat \<Rightarrow> label" where
  "shown_label mo cal rc =
     \<lparr>lbl_text = Some (day (cal ! fst rc ! snd rc)),
      lbl_style = Day_style (week_days (snd rc))
        (if month (cal ! fst rc ! snd rc) = mo then This_month else Other_month)\<rparr>"

definition week_label :: "int \<Rightarrow> nat \<Rightarrow> int" where
  "week_label wn i = (wn + int i - 1) mod max wn 52 + 1"

definition shown :: "widget \<Rightarrow> widget" where
  "shown s =
     s\<lparr>self_week_nbs :=
         (\<lambda>i. if i < 6 then Some (week_label (fst (snd (isocalendar (self_date s)))) i)
              else self_week_nbs s i),
       self_calendar :=
         (\<lambda>rc. if fst rc < 6 \<and> snd rc < 7
               then shown_label (month (self_date s))
                      (grid (year (self_date s)) (month (self_date s))) rc
               else self_calendar s rc)\<rparr>"

text \<open>
  The label that \<^verbatim>\<open>_display_selection\<close> gives the selection style, if any: the row
  and column it computes from the selected date and the displayed month.
\<close>

definition selection_cell :: "widget \<Rightarrow> (nat \<times> nat) option" where
  "selection_cell s =
     (case self_sel_date s of
        None \<Rightarrow> None
      | Some sd \<Rightarrow>
          if year sd = year (self_date s) then
            (let w = (fst (snd (isocalendar sd)) - fst (snd (isocalendar (self_date s))))
                       mod max 52 (fst (snd (isocalendar (self_date s))))
             in if 0 \<le> w \<and> w < 6 then Some (nat w, nat (snd (snd (isocalendar sd)) - 1))
                else None)
          else None)"

text \<open>
  Two states that differ at most in the labels: the displaying functions change nothing
  else.
\<close>

definition same_model :: "widget \<Rightarrow> widget \<Rightarrow> bool" where
  "same_model s s' \<longleftrightarrow>
     self_sel_date s' = self_sel_date s \<and> self_date s' = self_date s \<and>
     self_textvariable s' = self_textvariable s \<and> self_selectmode s' = self_selectmode s \<and>
     self_state s' = self_state s \<and> events s' = events s"

text \<open>The displayed month is stored as a valid date whose day is 1.\<close>

definition date_inv :: "widget \<Rightarrow> bool" where
  "date_inv s \<longleftrightarrow> date_valid (self_date s) \<and> day (self_date s) = 1"

text \<open>
  The widget as the constructor has built it when it calls \<^verbatim>\<open>_display_calendar\<close>
  for the first time, and the widget it returns when that call succeeds.  \<open>blank d\<close> is
  the first of the two for \<^verbatim>\<open>Calendar(year=..., month=...)\<close>.
\<close>

definition unshown :: "date option \<Rightarrow> date \<Rightarrow> string option \<Rightarrow> selectmode \<Rightarrow> wstate \<Rightarrow> widget" where
  "unshown sel d tv mode st =
     \<lparr>self_sel_date = sel, self_date = d, self_textvariable = tv,
      self_selectmode = mode, self_state = st,
      self_week_nbs = (\<lambda>i. None),
      self_calendar = (\<lambda>rc. \<lparr>lbl_text = None, lbl_style = Day_style Kind_normal This_month\<rparr>),
      events = []\<rparr>"

definition blank :: "date \<Rightarrow> widget" where
  "blank d = unshown None d None Mode_day Normal"

definition constructed :: "date option \<Rightarrow> date \<Rightarrow> string option \<Rightarrow> selectmode \<Rightarrow> wstate \<Rightarrow> widget" where
  "constructed sel d tv mode st = display_selection (shown (unshown sel d tv mode st))"

subsection \<open>The C locale\<close>

text \<open>
  In the C locale \<^verbatim>\<open>%x\<close> is \<^verbatim>\<open>%m/%d/%y\<close>.  \<^verbatim>\<open>strptime\<close> reads a month
  \<^verbatim>\<open>1[0-2]|0[1-9]|[1-9]\<close>, a day \<^verbatim>\<open>3[01]|[12]\d|0[1-9]|[1-9]| [1-9]\<close> and a
  two-digit year, which it places in 1969..2068.  The examples below use this locale.
\<close>

definition two_digits :: "int \<Rightarrow> string" where
  "two_digits n = [''0123456789'' ! nat ((n div 10) mod 10), ''0123456789'' ! nat (n mod 10)]"

definition c_strftime :: "date \<Rightarrow> string" where
  "c_strftime d =
     two_digits (month d) @ ''/'' @ two_digits (day d) @ ''/'' @ two_digits (year d mod 100)"

definition digit_val :: "char \<Rightarrow> int option" where
  "digit_val c = map_of (zip ''0123456789'' [0 .. 9]) c"

fun split_slash :: "string \<Rightarrow> string list" where
  "split_slash [] = [[]]"
| "split_slash (c # cs) =
     (if c = CHR ''/'' then [] # split_slash cs
      else (case split_slash cs of [] \<Rightarrow> [[c]] | w # ws \<Rightarrow> (c # w) # ws))"

definition field_m :: "string \<Rightarrow> int option" where
  "field_m f =
     (case map digit_val f of
        [Some a] \<Rightarrow> if 1 \<le> a then Some a else None
      | [Some a, Some b] \<Rightarrow> if 1 \<le> 10 * a + b \<and> 10 * a + b \<le> 12 then Some (10 * a + b) else None
      | _ \<Rightarrow> None)"

definition field_d :: "string \<Rightarrow> int option" where
  "field_d f =
     (case f of
        [c] \<Rightarrow> (case digit_val c of Some a \<Rightarrow> if 1 \<le> a then Some a else None | None \<Rightarrow> None)
      | [c, c'] \<Rightarrow>
          (case (digit_val c, digit_val c') of
             (Some a, Some b) \<Rightarrow>
               if 1 \<le> 10 * a + b \<and> 10 * a + b \<le> 31 then Some (10 * a + b) else None
           | (None, Some b) \<Rightarrow> if c = CHR '' '' \<and> 1 \<le> b then Some b else None
           | _ \<Rightarrow> None)
      | _ \<Rightarrow> None)"

definition field_y :: "string \<Rightarrow> int option" where
  "field_y f =
     (case map digit_val f of
        [Some a, Some b] \<Rightarrow>
          Some (if 10 * a + b \<le> 68 then 2000 + (10 * a + b) else 1900 + (10 * a + b))
      | _ \<Rightarrow> None)"

definition c_strptime :: "string \<Rightarrow> (int \<times> int \<times> int) option" where
  "c_strptime txt =
     (case split_slash txt of
        [fm, fd, fy] \<Rightarrow>
          (case (field_m fm, field_d fd, field_y fy) of
             (Some m, Some d, Some y) \<Rightarrow> Some (y, m, d)
           | _ \<Rightarrow> None)
      | _ \<Rightarrow> None)"

definition C_locale :: locale_ops where
  "C_locale = \<lparr>strftime_x = c_strftime, strptime_x = c_strptime\<rparr>"

subsection \<open>Example widgets\<close>

text \<open>
  \<^verbatim>\<open>Calendar(year=2020, month=1, day=5, textvariable=var)\<close> in the C locale, with
  \<^verbatim>\<open>selectmode="day"\<close> and with \<^verbatim>\<open>selectmode="none"\<close>, by the keyword
  arguments and as the widget that the constructor returns (\<open>init_example\<close> below).
\<close>

definition kw_example :: "string \<Rightarrow> kwargs" where
  "kw_example mode =
     \<lparr>kw_year = Some 2020, kw_month = Some 1, kw_day = Some 5,
      kw_selectmode = Some (literal mode), kw_state = None, kw_borderwidth = None,
      kw_textvariable = Some [],
      kw_today = mk_date 2018 6 1\<rparr>"

definition example_day :: widget where
  "example_day =
     constructed (Some (mk_date 2020 1 5)) (mk_date 2020 1 1) (Some ''01/05/20'')
       Mode_day Normal"

definition example_none :: widget where
  "example_none =
     constructed (Some (mk_date 2020 1 5)) (mk_date 2020 1 1) (Some ''01/05/20'')
       Mode_none Normal"

text \<open>\<^verbatim>\<open>Calendar(year=y, month=m)\<close> and \<^verbatim>\<open>Calendar(year=y, month=m, day=d)\<close>.\<close>

definition kw_ym :: "int \<Rightarrow> int \<Rightarrow> kwargs" where
  "kw_ym y m =
     \<lparr>kw_year = Some y, kw_month = Some m, kw_day = None,
      kw_selectmode = None, kw_state = None, kw_borderwidth = None,
      kw_textvariable = None,
      kw_today = mk_date 2018 6 1\<rparr>"

definition kw_ymd :: "int \<Rightarrow> int \<Rightarrow> int \<Rightarrow> kwargs" where
  "kw_ymd y m d =
     \<lparr>kw_year = Some y, kw_month = Some m, kw_day = Some d,
      kw_selectmode = None, kw_state = None, kw_borderwidth = None,
      kw_textvariable = None,
      kw_today = mk_date 2018 6 1\<rparr>"

text \<open>
  \<^verbatim>\<open>Calendar(year=2022, month=12, day=31)\<close>, and the same widget after a click on
  the next-month arrow and a click on the previous-year arrow, when it displays January 2022.
\<close>

definition december_2022 :: widget where
  "december_2022 =
     constructed (Some (mk_date 2022 12 31)) (mk_date 2022 12 1) None Mode_day Normal"

definition january_2022 :: widget where
  "january_2022 = snd (prev_year (snd (next_month december_2022)))"

text \<open>\<^verbatim>\<open>Calendar(year=2020, month=12)\<close>\<close>

definition december_2020 :: widget where
  "december_2020 = constructed None (mk_date 2020 12 1) None Mode_day Normal"

section \<open>Facts about the date arithmetic\<close>

subsection \<open>Division steps\<close>

lemma divmod_step:
  fixes n q r :: int
  assumes "0 \<le> r" "r < n"
  shows "(n * q + r) div n = q" "(n * q + r) mod n = r"
  using assms by simp_all

lemma mod_eq_0_small:
  fixes x n :: int
  assumes "0 < x" "x \<le> n"
  shows "x mod n = 0 \<longleftrightarrow> x = n"
proof (cases "x = n")
  case True
  then show ?thesis by simp
next
  case False
  then have "x < n" using assms by simp
  then have "x mod n = x" using assms by simp
  then show ?thesis using assms False by simp
qed

lemma div32_iff:
  fixes x j :: int
  shows "x div 32 = j \<longleftrightarrow> 32 * j \<le> x \<and> x < 32 * j + 32"
proof -
  have "32 * (x div 32) + x mod 32 = x" by simp
  moreover have "0 \<le> x mod 32" "x mod 32 < 32" by simp_all
  ultimately show ?thesis by linarith
qed

lemma month_cases:
  fixes m :: int
  assumes "1 \<le> m" "m \<le> 12"
  obtains "m = 1" | "m = 2" | "m = 3" | "m = 4" | "m = 5" | "m = 6"
    | "m = 7" | "m = 8" | "m = 9" | "m = 10" | "m = 11" | "m = 12"
proof -
  have "m = 1 \<or> m = 2 \<or> m = 3 \<or> m = 4 \<or> m = 5 \<or> m = 6 \<or> m = 7 \<or> m = 8 \<or> m = 9
      \<or> m = 10 \<or> m = 11 \<or> m = 12"
    using assms by presburger
  then show thesis using that by blast
qed

subsection \<open>Years in the 400-year cycle\<close>

lemma year_decomp:
  fixes y :: int
  obtains a b c e where "y = 400 * a + 100 * b + 4 * c + e + 1"
    "0 \<le> b" "b \<le> 3" "0 \<le> c" "c \<le> 24" "0 \<le> e" "e \<le> 3"
proof -
  define a where "a = (y - 1) div 400"
  define r where "r = (y - 1) mod 400"
  define b where "b = r div 100"
  define r' where "r' = r mod 100"
  define c where "c = r' div 4"
  define e where "e = r' mod 4"
  have 1: "y - 1 = 400 * a + r" "0 \<le> r" "r < 400" by (simp_all add: a_def r_def)
  have 2: "r = 100 * b + r'" "0 \<le> r'" "r' < 100" by (simp_all add: b_def r'_def)
  have 3: "r' = 4 * c + e" "0 \<le> e" "e < 4" by (simp_all add: c_def e_def)
  have "y = 400 * a + 100 * b + 4 * c + e + 1" using 1 2 3 by linarith
  moreover have "0 \<le> b" "b \<le> 3" using 1 2 by linarith+
  moreover have "0 \<le> c" "c \<le> 24" using 2 3 by linarith+
  moreover have "0 \<le> e" "e \<le> 3" using 3 by linarith+
  ultimately show thesis using that by blast
qed

lemma dby_decomp:
  fixes a b c e :: int
  assumes "0 \<le> b" "b \<le> 3" "0 \<le> c" "c \<le> 24" "0 \<le> e" "e \<le> 3"
  shows "days_before_year (400 * a + 100 * b + 4 * c + e + 1)
    = 146097 * a + 36524 * b + 1461 * c + 365 * e"
proof -
  let ?x = "400 * a + 100 * b + 4 * c + e"
  have x4: "?x = 4 * (100 * a + 25 * b + c) + e" by simp
  have x100: "?x = 100 * (4 * a + b) + (4 * c + e)" by simp
  have x400: "?x = 400 * a + (100 * b + 4 * c + e)" by simp
  have d4: "?x div 4 = 100 * a + 25 * b + c"
    unfolding x4 using assms by (intro divmod_step) linarith+
  have d100: "?x div 100 = 4 * a + b"
    unfolding x100 using assms by (intro divmod_step) linarith+
  have d400: "?x div 400 = a"
    unfolding x400 using assms by (intro divmod_step) linarith+
  show ?thesis
    unfolding days_before_year_def Let_def
    by (simp only: add_diff_cancel_right' d4 d100 d400) simp
qed

lemma leap_decomp:
  fixes a b c e :: int
  assumes b: "0 \<le> b" "b \<le> 3" and c: "0 \<le> c" "c \<le> 24" and e: "0 \<le> e" "e \<le> 3"
  shows "is_leap (400 * a + 100 * b + 4 * c + e + 1) \<longleftrightarrow> e = 3 \<and> (c \<noteq> 24 \<or> b = 3)"
proof -
  let ?y = "400 * a + 100 * b + 4 * c + e + 1"
  have m4: "?y mod 4 = (e + 1) mod 4"
  proof -
    have "?y = (e + 1) + (100 * a + 25 * b + c) * 4" by simp
    then show ?thesis by (metis mod_mult_self1)
  qed
  have m100: "?y mod 100 = (4 * c + e + 1) mod 100"
  proof -
    have "?y = (4 * c + e + 1) + (4 * a + b) * 100" by simp
    then show ?thesis by (metis mod_mult_self1)
  qed
  have m400: "?y mod 400 = (100 * b + 4 * c + e + 1) mod 400"
  proof -
    have "?y = (100 * b + 4 * c + e + 1) + a * 400" by simp
    then show ?thesis by (metis mod_mult_self1)
  qed
  have e4: "(e + 1) mod 4 = 0 \<longleftrightarrow> e = 3"
    using mod_eq_0_small[of "e + 1" 4] e by linarith
  have c100: "(4 * c + e + 1) mod 100 = 0 \<longleftrightarrow> (c = 24 \<and> e = 3)"
    using mod_eq_0_small[of "4 * c + e + 1" 100] c e by linarith
  have b400: "(100 * b + 4 * c + e + 1) mod 400 = 0 \<longleftrightarrow> (b = 3 \<and> c = 24 \<and> e = 3)"
    using mod_eq_0_small[of "100 * b + 4 * c + e + 1" 400] b c e by linarith
  show ?thesis unfolding is_leap_def m4 m100 m400 e4 c100 b400 by blast
qed

subsection \<open>The day of the year\<close>

lemma md_of_yday_month:
  assumes lo: "32 * j \<le> n + 50" and hi: "n + 50 < 32 * j + 64"
    and P: "DAYS_BEFORE_MONTH ! nat j + (if j > 2 \<and> lp then 1 else 0) = P"
    and Pn: "P \<le> n"
    and nxt: "n + 50 \<ge> 32 * j + 32 \<Longrightarrow>
        n < DAYS_BEFORE_MONTH ! nat (j + 1) + (if j + 1 > 2 \<and> lp then 1 else 0) \<and>
        DAYS_BEFORE_MONTH ! nat (j + 1) + (if j + 1 > 2 \<and> lp then 1 else 0)
          - (DAYS_IN_MONTH ! nat j + (if j = 2 \<and> lp then 1 else 0)) = P"
  shows "md_of_yday lp n = (j, n - P + 1)"
proof (cases "n + 50 < 32 * j + 32")
  case True
  then have "(n + 50) div 32 = j" using lo by (simp add: div32_iff)
  then show ?thesis using P Pn by (simp add: md_of_yday_def Let_def)
next
  case False
  then have e: "(n + 50) div 32 = j + 1" using hi by (simp add: div32_iff)
  from False nxt have
    a: "n < DAYS_BEFORE_MONTH ! nat (j + 1) + (if j + 1 > 2 \<and> lp then 1 else 0)" and
    b: "DAYS_BEFORE_MONTH ! nat (j + 1) + (if j + 1 > 2 \<and> lp then 1 else 0)
          - (DAYS_IN_MONTH ! nat j + (if j = 2 \<and> lp then 1 else 0)) = P" by simp_all
  show ?thesis unfolding md_of_yday_def Let_def e using a b by simp
qed

lemmas month_tables =
  days_before_month_def days_in_month_def DAYS_BEFORE_MONTH_def DAYS_IN_MONTH_def

lemma md_of_yday_ok:
  assumes m: "1 \<le> m" "m \<le> 12" and d: "1 \<le> d" "d \<le> days_in_month y m"
  shows "md_of_yday (is_leap y) (days_before_month y m + d - 1) = (m, d)"
proof -
  have "md_of_yday (is_leap y) (days_before_month y m + d - 1)
      = (m, (days_before_month y m + d - 1) - days_before_month y m + 1)"
    using m
    by (cases rule: month_cases; insert d;
        intro md_of_yday_month; simp add: month_tables split: if_splits)
  then show ?thesis by simp
qed

lemma yday_bounds:
  assumes m: "1 \<le> m" "m \<le> 12" and d: "1 \<le> d" "d \<le> days_in_month y m"
  shows "0 \<le> days_before_month y m + d - 1"
    and "days_before_month y m + d - 1 \<le> (if is_leap y then 365 else 364)"
    and "days_before_month y m + d - 1 = 365 \<Longrightarrow> m = 12 \<and> d = 31"
  using m by (cases rule: month_cases; insert d, simp add: month_tables split: if_splits)+

subsection \<open>\<open>ord2ymd\<close> inverts \<open>ymd2ord\<close>\<close>

lemma ord2ymd_steps:
  assumes n0: "n0 - 1 = 146097 * a + r1" and r1: "0 \<le> r1" "r1 < 146097"
    and r1': "r1 = 36524 * b + r2" and r2: "0 \<le> r2" "r2 < 36524"
    and r2': "r2 = 1461 * c + r3" and r3: "0 \<le> r3" "r3 < 1461"
    and r3': "r3 = 365 * e + k" and k: "0 \<le> k" "k < 365"
  shows "ord2ymd n0 =
    (if e = 4 \<or> b = 4 then (400 * a + 100 * b + 4 * c + e, 12, 31)
     else (case md_of_yday (e = 3 \<and> (c \<noteq> 24 \<or> b = 3)) k of
             (m, d) \<Rightarrow> (400 * a + 100 * b + 4 * c + e + 1, m, d)))"
proof -
  have d1: "(n0 - 1) div 146097 = a" and m1: "(n0 - 1) mod 146097 = r1"
    unfolding n0 using r1 by (rule divmod_step)+
  have d2: "r1 div 36524 = b" and m2: "r1 mod 36524 = r2"
    unfolding r1' using r2 by (rule divmod_step)+
  have d3: "r2 div 1461 = c" and m3: "r2 mod 1461 = r3"
    unfolding r2' using r3 by (rule divmod_step)+
  have d4: "r3 div 365 = e" and m4: "r3 mod 365 = k"
    unfolding r3' using k by (rule divmod_step)+
  show ?thesis
    unfolding ord2ymd_def DI400Y_def DI100Y_def DI4Y_def Let_def d1 m1 d2 m2 d3 m3 d4 m4
    by (simp add: md_of_yday_def Let_def)
qed

lemma ord2ymd_ymd2ord:
  assumes m: "1 \<le> m" "m \<le> 12" and d: "1 \<le> d" "d \<le> days_in_month y m"
  shows "ord2ymd (ymd2ord y m d) = (y, m, d)"
proof -
  obtain a b c e where y: "y = 400 * a + 100 * b + 4 * c + e + 1"
    and b: "0 \<le> b" "b \<le> 3" and c: "0 \<le> c" "c \<le> 24" and e: "0 \<le> e" "e \<le> 3"
    by (rule year_decomp)
  define k where "k = days_before_month y m + d - 1"
  have lp: "is_leap y \<longleftrightarrow> e = 3 \<and> (c \<noteq> 24 \<or> b = 3)"
    unfolding y using b c e by (rule leap_decomp)
  have dby: "days_before_year y = 146097 * a + 36524 * b + 1461 * c + 365 * e"
    unfolding y using b c e by (rule dby_decomp)
  have k0: "0 \<le> k" and k1: "k \<le> (if is_leap y then 365 else 364)"
    and k2: "k = 365 \<Longrightarrow> m = 12 \<and> d = 31"
    unfolding k_def using yday_bounds[OF m d] by blast+
  have n0: "ymd2ord y m d - 1 = 146097 * a + (36524 * b + 1461 * c + 365 * e + k)"
    unfolding ymd2ord_def dby k_def by simp
  have md: "md_of_yday (is_leap y) k = (m, d)"
    unfolding k_def using m d by (rule md_of_yday_ok)
  show ?thesis
  proof (cases "k = 365")
    case False
    then have k364: "k < 365" using k1 by (simp split: if_splits)
    have "ord2ymd (ymd2ord y m d) =
      (if e = 4 \<or> b = 4 then (400 * a + 100 * b + 4 * c + e, 12, 31)
       else (case md_of_yday (e = 3 \<and> (c \<noteq> 24 \<or> b = 3)) k of
             (m, d) \<Rightarrow> (400 * a + 100 * b + 4 * c + e + 1, m, d)))"
      using n0
    proof (rule ord2ymd_steps)
      show "36524 * b + 1461 * c + 365 * e + k = 36524 * b + (1461 * c + 365 * e + k)" by simp
      show "1461 * c + 365 * e + k = 1461 * c + (365 * e + k)" by simp
      show "365 * e + k = 365 * e + k" by simp
    qed (use b c e k0 k364 in linarith)+
    then show ?thesis using b e md lp y by simp
  next
    case True
    then have leap: "is_leap y" using k1 by (simp split: if_splits)
    then have e3: "e = 3" using lp by simp
    from True k2 have md31: "m = 12" "d = 31" by simp_all
    show ?thesis
    proof (cases "c = 24")
      case False
      have "ord2ymd (ymd2ord y m d) =
        (if (4::int) = 4 \<or> b = 4 then (400 * a + 100 * b + 4 * c + 4, 12, 31)
         else (case md_of_yday ((4::int) = 3 \<and> (c \<noteq> 24 \<or> b = 3)) 0 of
               (m, d) \<Rightarrow> (400 * a + 100 * b + 4 * c + 4 + 1, m, d)))"
        using n0
      proof (rule ord2ymd_steps)
        show "36524 * b + 1461 * c + 365 * e + k = 36524 * b + (1461 * c + 1460)"
          using e3 True by simp
        show "1461 * c + 1460 = 1461 * c + 1460" by simp
        show "(1460::int) = 365 * 4 + 0" by simp
      qed (use b c e k0 True False in linarith)+
      then show ?thesis using y e3 md31 by simp
    next
      case c24: True
      then have b3: "b = 3" using leap lp by simp
      have "ord2ymd (ymd2ord y m d) =
        (if (0::int) = 4 \<or> (4::int) = 4 then (400 * a + 100 * 4 + 4 * 0 + 0, 12, 31)
         else (case md_of_yday ((0::int) = 3 \<and> ((0::int) \<noteq> 24 \<or> (4::int) = 3)) 0 of
               (m, d) \<Rightarrow> (400 * a + 100 * 4 + 4 * 0 + 0 + 1, m, d)))"
        using n0
      proof (rule ord2ymd_steps)
        show "36524 * b + 1461 * c + 365 * e + k = 36524 * 4 + 0"
          using e3 True c24 b3 by simp
        show "(0::int) = 1461 * 0 + 0" by simp
        show "(0::int) = 365 * 0 + 0" by simp
      qed (use b c e k0 True c24 b3 in linarith)+
      then show ?thesis using y e3 c24 b3 md31 by simp
    qed
  qed
qed

lemma fromordinal_toordinal:
  assumes "date_valid d"
  shows "fromordinal (toordinal d) = d"
  using assms ord2ymd_ymd2ord[of "month d" "day d" "year d"]
  by (simp add: fromordinal_def toordinal_def date_valid_def mk_date_def)

subsection \<open>Consecutive months and years\<close>

lemma div_pred:
  fixes y n :: int
  assumes "0 < n"
  shows "y div n = (y - 1) div n + (if y mod n = 0 then 1 else 0)"
proof (cases "y mod n = 0")
  case True
  have "y = n * (y div n) + y mod n" by simp
  then have "y - 1 = n * (y div n - 1) + (n - 1)" using True by (simp add: algebra_simps)
  then have "(y - 1) div n = (n * (y div n - 1) + (n - 1)) div n"
    by (rule arg_cong)
  also have "\<dots> = y div n - 1"
    using assms by (intro divmod_step) simp_all
  finally show ?thesis using True by simp
next
  case False
  have r: "0 \<le> y mod n" "y mod n < n" using assms by simp_all
  have "y = n * (y div n) + y mod n" by simp
  then have "y - 1 = n * (y div n) + (y mod n - 1)" by simp
  then have "(y - 1) div n = (n * (y div n) + (y mod n - 1)) div n"
    by (rule arg_cong)
  also have "\<dots> = y div n"
    using r False by (intro divmod_step) linarith+
  finally show ?thesis using False by simp
qed

lemma mod_100_4: "(y::int) mod 100 = 0 \<Longrightarrow> y mod 4 = 0"
proof -
  assume "y mod 100 = 0"
  then have "100 dvd y" by (simp add: dvd_eq_mod_eq_0)
  moreover have "(4::int) dvd 100" by simp
  ultimately have "4 dvd y" by (rule dvd_trans[rotated])
  then show ?thesis by simp
qed

lemma mod_400_100: "(y::int) mod 400 = 0 \<Longrightarrow> y mod 100 = 0"
proof -
  assume "y mod 400 = 0"
  then have "400 dvd y" by (simp add: dvd_eq_mod_eq_0)
  moreover have "(100::int) dvd 400" by simp
  ultimately have "100 dvd y" by (rule dvd_trans[rotated])
  then show ?thesis by simp
qed

lemma days_before_year_succ:
  "days_before_year (y + 1) = days_before_year y + (if is_leap y then 366 else 365)"
proof -
  define p4 where "p4 = (y - 1) div 4"
  define p100 where "p100 = (y - 1) div 100"
  define p400 where "p400 = (y - 1) div 400"
  have 4: "y div 4 = p4 + (if y mod 4 = 0 then 1 else 0)"
    unfolding p4_def by (rule div_pred) simp
  have 100: "y div 100 = p100 + (if y mod 100 = 0 then 1 else 0)"
    unfolding p100_def by (rule div_pred) simp
  have 400: "y div 400 = p400 + (if y mod 400 = 0 then 1 else 0)"
    unfolding p400_def by (rule div_pred) simp
  have e: "y + 1 - 1 = y" by simp
  have lhs: "days_before_year (y + 1) = y * 365 + y div 4 - y div 100 + y div 400"
    unfolding days_before_year_def Let_def e ..
  have rhs: "days_before_year y = (y - 1) * 365 + p4 - p100 + p400"
    unfolding days_before_year_def Let_def p4_def p100_def p400_def ..
  show ?thesis
    unfolding lhs rhs is_leap_def 4 100 400
    using mod_100_4[of y] mod_400_100[of y]
    by (cases "y mod 4 = 0"; cases "y mod 100 = 0"; cases "y mod 400 = 0")
       (simp_all add: algebra_simps)
qed


lemma days_before_month_succ:
  assumes "1 \<le> m" "m < 12"
  shows "days_before_month y (m + 1) = days_before_month y m + days_in_month y m"
proof -
  have "1 \<le> m" "m \<le> 12" using assms by simp_all
  then show ?thesis
    using assms(2) by (cases rule: month_cases) (simp_all add: month_tables)
qed

lemma days_in_month_range:
  assumes "1 \<le> m" "m \<le> 12"
  shows "28 \<le> days_in_month y m" "days_in_month y m \<le> 31"
  using assms by (cases rule: month_cases; simp add: month_tables)+

lemma ymd2ord_nextmonth:
  assumes "1 \<le> m" "m \<le> 12"
  shows "(case nextmonth y m of (ny, nm) \<Rightarrow> ymd2ord ny nm 1) = ymd2ord y m 1 + days_in_month y m"
proof (cases "m = 12")
  case True
  then show ?thesis
    by (simp add: nextmonth_def ymd2ord_def days_before_year_succ month_tables)
next
  case False
  then have "m < 12" using assms by simp
  then show ?thesis
    using days_before_month_succ[OF assms(1), of y]
    by (simp add: nextmonth_def ymd2ord_def)
qed

lemma ymd2ord_prevmonth:
  assumes "1 \<le> m" "m \<le> 12"
  shows "(case prevmonth y m of (py, pm) \<Rightarrow> ymd2ord py pm 1 + days_in_month py pm)
    = ymd2ord y m 1"
proof (cases "m = 1")
  case True
  then show ?thesis
    using days_before_year_succ[of "y - 1"]
    by (simp add: prevmonth_def ymd2ord_def month_tables)
next
  case False
  then have "1 \<le> m - 1" "m - 1 < 12" using assms by simp_all
  then show ?thesis
    using days_before_month_succ[of "m - 1" y] False
    by (simp add: prevmonth_def ymd2ord_def)
qed

subsection \<open>Dates and their ordinals\<close>

lemma ymd2ord_day: "ymd2ord y m d = ymd2ord y m 1 + d - 1"
  by (simp add: ymd2ord_def)

lemma toordinal_mk_date [simp]: "toordinal (mk_date y m d) = ymd2ord y m d"
  by (simp add: toordinal_def mk_date_def)

lemma mk_date_sel [simp]:
  "year (mk_date y m d) = y" "month (mk_date y m d) = m" "day (mk_date y m d) = d"
  by (simp_all add: mk_date_def)

lemma date_valid_mk_date:
  "date_valid (mk_date y m d) \<longleftrightarrow>
     1 \<le> y \<and> y \<le> 9999 \<and> 1 \<le> m \<and> m \<le> 12 \<and> 1 \<le> d \<and> d \<le> days_in_month y m"
  by (simp add: date_valid_def MINYEAR_def MAXYEAR_def)

section \<open>Facts about the calendar module\<close>

lemma isleap_eq: "isleap y = is_leap y"
  by (simp add: isleap_def is_leap_def)

lemma monthlen_eq:
  assumes "1 \<le> m" "m \<le> 12"
  shows "monthlen y m = days_in_month y m"
  using assms
  by (cases rule: month_cases) (simp_all add: monthlen_def mdays_def isleap_eq month_tables)

lemma fits_c_int_small:
  assumes "- 10000 \<le> n" "n \<le> 10000"
  shows "fits_c_int n"
  using assms by (simp add: fits_c_int_def INT_MIN_def INT_MAX_def)

lemma date_new_ok:
  assumes "1 \<le> y" "y \<le> 9999" "1 \<le> m" "m \<le> 12" "1 \<le> d" "d \<le> days_in_month y m"
  shows "date_new y m d = Inr (mk_date y m d)"
proof -
  have "d \<le> 31" using days_in_month_range(2)[OF assms(3,4), where y = y] assms(6) by simp
  then have "fits_c_int y" "fits_c_int m" "fits_c_int d"
    using assms by (simp_all add: fits_c_int_small)
  then show ?thesis using assms by (simp add: date_new_def MINYEAR_def MAXYEAR_def)
qed

lemma date_new_Inr:
  assumes "date_new y m d = Inr dt"
  shows "dt = mk_date y m d" "date_valid dt"
  using assms
  by (auto simp add: date_new_def date_valid_def mk_date_def split: if_splits)

lemma first_weekday_range: "0 \<le> first_weekday y m" "first_weekday y m < 7"
  by (simp_all add: first_weekday_def)

lemma cal_weekday_first:
  assumes "1 \<le> y" "y \<le> 9999" "1 \<le> m" "m \<le> 12"
  shows "cal_weekday y m 1 = Inr (first_weekday y m)"
proof -
  have "1 \<le> days_in_month y m" using days_in_month_range(1)[OF assms(3,4), of y] by simp
  then have "date_new y m 1 = Inr (mk_date y m 1)"
    using assms by (intro date_new_ok) simp_all
  then show ?thesis
    using assms
    by (simp add: cal_weekday_def MINYEAR_def MAXYEAR_def ebind_def date_weekday_def
        toordinal_def mk_date_def first_weekday_def)
qed

lemma monthrange_ok:
  assumes "1 \<le> y" "y \<le> 9999" "1 \<le> m" "m \<le> 12"
  shows "monthrange y m = Inr (first_weekday y m, days_in_month y m)"
  using cal_weekday_first[OF assms] monthlen_eq[OF assms(3,4), of y] assms(3,4)
  by (simp add: monthrange_def ebind_def monthlen_def)

lemma dates_of_map:
  assumes "\<And>d. d \<in> set ds \<Longrightarrow> date_new y m d = Inr (mk_date y m d)"
  shows "dates_of (map (\<lambda>d. (y, m, d)) ds) = Inr (map (mk_date y m) ds)"
  using assms by (induction ds) (simp_all add: ebind_def)

lemma dates_of_append:
  assumes "dates_of xs = Inr ds" "dates_of ys = Inr es"
  shows "dates_of (xs @ ys) = Inr (ds @ es)"
  using assms
proof (induction xs arbitrary: ds)
  case Nil
  then show ?case by simp
next
  case (Cons t ts)
  obtain y m d where t: "t = (y, m, d)" by (cases t)
  from Cons.prems(1) obtain dt ds' where
    dt: "date_new y m d = Inr dt" and ds': "dates_of ts = Inr ds'" and ds: "ds = dt # ds'"
    unfolding t by (auto simp add: ebind_def split: sum.splits)
  from Cons.IH[OF ds' Cons.prems(2)] show ?case
    unfolding t using dt ds by (simp add: ebind_def)
qed

lemma first_weekday_1_1: "first_weekday 1 1 = 0"
  by (simp add: first_weekday_def ymd2ord_def days_before_year_def month_tables)

lemma prevmonth_range:
  assumes "1 \<le> m" "m \<le> 12"
  shows "1 \<le> snd (prevmonth y m)" "snd (prevmonth y m) \<le> 12"
  using assms by (simp_all add: prevmonth_def)

lemma nextmonth_range:
  assumes "1 \<le> m" "m \<le> 12"
  shows "1 \<le> snd (nextmonth y m)" "snd (nextmonth y m) \<le> 12"
  using assms by (simp_all add: nextmonth_def)

lemma days_after_range: "0 \<le> days_after y m" "days_after y m < 7"
  by (simp_all add: days_after_def)

lemma itermonthdays3_ok:
  assumes "1 \<le> y" "y \<le> 9999" "1 \<le> m" "m \<le> 12"
  shows "itermonthdays3 MONDAY y m =
    Inr (map (\<lambda>d. (fst (prevmonth y m), snd (prevmonth y m), d))
            [days_in_month (fst (prevmonth y m)) (snd (prevmonth y m)) + 1 - first_weekday y m
              .. days_in_month (fst (prevmonth y m)) (snd (prevmonth y m))]
         @ map (\<lambda>d. (y, m, d)) [1 .. days_in_month y m]
         @ map (\<lambda>d. (fst (nextmonth y m), snd (nextmonth y m), d)) [1 .. days_after y m])"
proof -
  have fw: "first_weekday y m mod 7 = first_weekday y m"
    using first_weekday_range[of y m] by simp
  have ml: "monthlen (fst (prevmonth y m)) (snd (prevmonth y m))
      = days_in_month (fst (prevmonth y m)) (snd (prevmonth y m))"
    using prevmonth_range[OF assms(3,4)] by (rule monthlen_eq)
  show ?thesis
    unfolding itermonthdays3_def monthrange_ok[OF assms]
    by (simp add: ebind_def MONDAY_def Let_def fw ml days_after_def case_prod_beta)
qed

lemma itermonthdates_ok:
  assumes y: "1 \<le> y" "y \<le> 9999" and m: "1 \<le> m" "m \<le> 12"
    and last: "y < 9999 \<or> m < 12"
  shows "itermonthdates MONDAY y m = Inr (map (cell y m) [0 ..< ncells y m])"
proof -
  define db where "db = first_weekday y m"
  define nd where "nd = days_in_month y m"
  define da where "da = days_after y m"
  define py where "py = fst (prevmonth y m)"
  define pm where "pm = snd (prevmonth y m)"
  define ny where "ny = fst (nextmonth y m)"
  define nm where "nm = snd (nextmonth y m)"
  define pl where "pl = days_in_month py pm"
  have db: "0 \<le> db" "db < 7" unfolding db_def by (rule first_weekday_range)+
  have da: "0 \<le> da" "da < 7" unfolding da_def by (rule days_after_range)+
  have nd: "28 \<le> nd" "nd \<le> 31" unfolding nd_def using m by (rule days_in_month_range)+
  have pm: "1 \<le> pm" "pm \<le> 12" unfolding pm_def using m by (rule prevmonth_range)+
  have nm: "1 \<le> nm" "nm \<le> 12" unfolding nm_def using m by (rule nextmonth_range)+
  have pl: "28 \<le> pl" "pl \<le> 31" unfolding pl_def using pm by (rule days_in_month_range)+
  have nl: "28 \<le> days_in_month ny nm" using nm by (rule days_in_month_range)
  have py: "1 \<le> py \<and> py \<le> 9999" if "0 < db"
  proof (cases "y = 1 \<and> m = 1")
    case True
    then show ?thesis using that first_weekday_1_1 by (simp add: db_def)
  next
    case False
    then show ?thesis using y m by (auto simp add: py_def prevmonth_def)
  qed
  have ny: "1 \<le> ny \<and> ny \<le> 9999"
    using y m last by (auto simp add: ny_def nextmonth_def)
  have A: "dates_of (map (\<lambda>d. (py, pm, d)) [pl + 1 - db .. pl])
      = Inr (map (mk_date py pm) [pl + 1 - db .. pl])"
  proof (rule dates_of_map)
    fix d assume "d \<in> set [pl + 1 - db .. pl]"
    then have d: "pl + 1 - db \<le> d" "d \<le> pl" by simp_all
    then have "0 < db" by linarith
    then show "date_new py pm d = Inr (mk_date py pm d)"
      using py pm d db pl by (intro date_new_ok) (simp_all add: pl_def)
  qed
  have B: "dates_of (map (\<lambda>d. (y, m, d)) [1 .. nd]) = Inr (map (mk_date y m) [1 .. nd])"
    by (rule dates_of_map) (use y m in \<open>auto intro!: date_new_ok simp add: nd_def\<close>)
  have C: "dates_of (map (\<lambda>d. (ny, nm, d)) [1 .. da]) = Inr (map (mk_date ny nm) [1 .. da])"
  proof (rule dates_of_map)
    fix d assume "d \<in> set [1 .. da]"
    then have d: "1 \<le> d" "d \<le> da" by simp_all
    then show "date_new ny nm d = Inr (mk_date ny nm d)"
      using ny nm da nl by (intro date_new_ok) simp_all
  qed
  have "itermonthdates MONDAY y m =
    Inr (map (mk_date py pm) [pl + 1 - db .. pl] @ map (mk_date y m) [1 .. nd]
         @ map (mk_date ny nm) [1 .. da])"
    unfolding itermonthdates_def itermonthdays3_ok[OF y m]
    using dates_of_append[OF A dates_of_append[OF B C]]
    by (simp add: ebind_def db_def nd_def da_def py_def pm_def ny_def nm_def pl_def)
  also have "map (mk_date py pm) [pl + 1 - db .. pl] @ map (mk_date y m) [1 .. nd]
         @ map (mk_date ny nm) [1 .. da] = map (cell y m) [0 ..< ncells y m]"
    (is "?L = ?R")
  proof (rule nth_equalityI)
    show len: "length ?L = length ?R"
      using db da nd by (simp add: ncells_def db_def[symmetric] nd_def[symmetric] da_def[symmetric])
    fix k assume "k < length ?L"
    then have k: "int k < db + nd + da" using db da nd by simp
    have cellk: "cell y m k =
      (if int k < db then mk_date py pm (pl - db + 1 + int k)
       else if int k < db + nd then mk_date y m (int k - db + 1)
       else mk_date ny nm (int k - db - nd + 1))"
      by (simp add: cell_def Let_def db_def nd_def py_def pm_def ny_def nm_def pl_def
          split: prod.splits)
    have R: "?R ! k = cell y m k"
      using k db da nd by (simp add: ncells_def db_def[symmetric] nd_def[symmetric] da_def[symmetric])
    consider (a) "int k < db" | (b) "db \<le> int k" "int k < db + nd" | (c) "db + nd \<le> int k"
      by linarith
    then have "?L ! k = cell y m k"
    proof cases
      case a
      then have "k < length (map (mk_date py pm) [pl + 1 - db .. pl])" using db by simp
      then have "?L ! k = map (mk_date py pm) [pl + 1 - db .. pl] ! k"
        by (simp only: nth_append if_True)
      also have "\<dots> = mk_date py pm (pl + 1 - db + int k)"
        using a db by simp
      finally show ?thesis using a by (simp add: cellk algebra_simps)
    next
      case b
      have la: "length (map (mk_date py pm) [pl + 1 - db .. pl]) = nat db" using db by simp
      have "?L ! k = (map (mk_date y m) [1 .. nd] @ map (mk_date ny nm) [1 .. da]) ! (k - nat db)"
        using b db by (simp only: nth_append la) simp
      also have "\<dots> = map (mk_date y m) [1 .. nd] ! (k - nat db)"
        using b db nd by (simp add: nth_append)
      also have "\<dots> = mk_date y m (1 + int (k - nat db))"
        using b db nd by simp
      finally show ?thesis using b db by (simp add: cellk algebra_simps)
    next
      case c
      have la: "length (map (mk_date py pm) [pl + 1 - db .. pl]) = nat db" using db by simp
      have lb: "length (map (mk_date y m) [1 .. nd]) = nat nd" using nd by simp
      have "?L ! k = (map (mk_date y m) [1 .. nd] @ map (mk_date ny nm) [1 .. da]) ! (k - nat db)"
        using c db nd by (simp only: nth_append la) simp
      also have "\<dots> = map (mk_date ny nm) [1 .. da] ! (k - nat db - nat nd)"
        using c db nd by (simp only: nth_append lb) simp
      also have "\<dots> = mk_date ny nm (1 + int (k - nat db - nat nd))"
        using c k db nd da by simp
      finally show ?thesis using c db nd by (simp add: cellk algebra_simps)
    qed
    then show "?L ! k = ?R ! k" using R by simp
  qed
  finally show ?thesis .
qed

lemma ncells_weeks:
  assumes "1 \<le> m" "m \<le> 12"
  shows "ncells y m = 7 * nweeks y m" "4 \<le> nweeks y m" "nweeks y m \<le> 6"
proof -
  define x where "x = first_weekday y m + days_in_month y m"
  have x: "28 \<le> x" "x \<le> 37"
    using first_weekday_range[of y m] days_in_month_range[OF assms, of y] by (simp_all add: x_def)
  have da: "days_after y m = (- x) mod 7" by (simp add: days_after_def x_def)
  have "(- x) = 7 * ((- x) div 7) + (- x) mod 7" by simp
  then have eq: "x + days_after y m = 7 * (- ((- x) div 7))" unfolding da by linarith
  have r: "0 \<le> days_after y m" "days_after y m < 7" by (rule days_after_range)+
  define q where "q = - ((- x) div 7)"
  have q: "x + days_after y m = 7 * q" using eq by (simp add: q_def)
  then have qr: "4 \<le> q" "q \<le> 6" using x r by linarith+
  have nc: "ncells y m = nat (7 * q)" using q by (simp add: ncells_def x_def)
  then have "ncells y m = 7 * nat q" using qr by (simp add: nat_mult_distrib)
  then have nw: "nweeks y m = nat q" by (simp add: nweeks_def)
  show "ncells y m = 7 * nweeks y m" using \<open>ncells y m = 7 * nat q\<close> nw by simp
  show "4 \<le> nweeks y m" "nweeks y m \<le> 6" using nw qr by simp_all
qed

lemma weeks_of_map:
  "weeks_of (map f [0 ..< 7 * w]) = map (\<lambda>i. map (\<lambda>j. f (7 * i + j)) [0 ..< 7]) [0 ..< w]"
proof -
  have len: "(length (map f [0 ..< 7 * w]) + 6) div 7 = w" by simp
  have row: "take 7 (drop (7 * i) (map f [0 ..< 7 * w])) = map (\<lambda>j. f (7 * i + j)) [0 ..< 7]"
    if "i < w" for i
  proof -
    have "take 7 (drop (7 * i) [0 ..< 7 * w]) = [7 * i ..< 7 * i + 7]"
      using that by (simp add: take_upt)
    also have "\<dots> = map (\<lambda>j. 7 * i + j) [0 ..< 7]"
      by (simp add: map_add_upt add.commute)
    finally show ?thesis by (simp add: take_map drop_map comp_def)
  qed
  show ?thesis
    unfolding weeks_of_def len by (rule map_cong) (simp_all add: row)
qed

lemma monthdatescalendar_ok:
  assumes y: "1 \<le> y" "y \<le> 9999" and m: "1 \<le> m" "m \<le> 12"
    and last: "y < 9999 \<or> m < 12"
  shows "monthdatescalendar MONDAY y m =
    Inr (map (\<lambda>i. map (\<lambda>j. cell y m (7 * i + j)) [0 ..< 7]) [0 ..< nweeks y m])"
  unfolding monthdatescalendar_def itermonthdates_ok[OF assms] ncells_weeks(1)[OF m]
  by (simp add: ebind_def weeks_of_map)

lemma first_weekday_next:
  assumes "1 \<le> m" "m \<le> 12"
  shows "first_weekday (fst (nextmonth y m)) (snd (nextmonth y m))
    = (first_weekday y m + days_in_month y m) mod 7"
proof -
  have "ymd2ord (fst (nextmonth y m)) (snd (nextmonth y m)) 1
      = ymd2ord y m 1 + days_in_month y m"
    using ymd2ord_nextmonth[OF assms, of y] by (simp add: case_prod_beta)
  then have "first_weekday (fst (nextmonth y m)) (snd (nextmonth y m))
      = ((ymd2ord y m 1 + 6) + days_in_month y m) mod 7"
    by (simp add: first_weekday_def add.commute add.left_commute)
  also have "\<dots> = ((ymd2ord y m 1 + 6) mod 7 + days_in_month y m) mod 7"
    by (simp add: mod_add_left_eq)
  finally show ?thesis by (simp add: first_weekday_def)
qed

lemma mod7_neg:
  fixes x :: int
  shows "x mod 7 = (if (- x) mod 7 = 0 then 0 else 7 - (- x) mod 7)"
proof -
  define q1 r1 q2 r2 where "q1 = x div 7" and "r1 = x mod 7"
    and "q2 = (- x) div 7" and "r2 = (- x) mod 7"
  have a: "x = 7 * q1 + r1" by (simp add: q1_def r1_def)
  have b: "- x = 7 * q2 + r2" by (simp add: q2_def r2_def)
  have r: "0 \<le> r1" "r1 < 7" "0 \<le> r2" "r2 < 7" by (simp_all add: r1_def r2_def)
  from a b have "r1 + r2 = 7 * (- q1 - q2)" by (simp add: algebra_simps)
  then obtain q where q: "r1 + r2 = 7 * q" by blast
  then have "q = 0 \<or> q = 1" using r by linarith
  then have "r1 = (if r2 = 0 then 0 else 7 - r2)" using q r by auto
  then show ?thesis by (simp add: r1_def r2_def)
qed

lemma first_weekday_next_row:
  assumes "1 \<le> m" "m \<le> 12"
  shows "7 * int (next_row y m) - first_weekday (fst (nextmonth y m)) (snd (nextmonth y m))
    = days_after y m"
  unfolding first_weekday_next[OF assms] next_row_def
  using mod7_neg[of "first_weekday y m + days_in_month y m"]
  by (simp add: days_after_def)

lemma int_ncells:
  "int (ncells y m) = first_weekday y m + days_in_month y m + days_after y m" if "1 \<le> m" "m \<le> 12"
  using first_weekday_range[of y m] days_in_month_range[OF that, of y] days_after_range[of y m]
  by (simp add: ncells_def)

lemma cell_overlap:
  assumes m: "1 \<le> m" "m \<le> 12" and j: "j < 7" and r: "r \<le> 1"
  shows "cell (fst (nextmonth y m)) (snd (nextmonth y m)) (7 * (next_row y m + r) + j)
    = cell y m (7 * (nweeks y m + r) + j)"
proof -
  define ny where "ny = fst (nextmonth y m)"
  define nm where "nm = snd (nextmonth y m)"
  define db where "db = first_weekday y m"
  define nd where "nd = days_in_month y m"
  define da where "da = days_after y m"
  define db' where "db' = first_weekday ny nm"
  define i where "i = next_row y m"
  define w where "w = nweeks y m"
  have nm: "1 \<le> nm" "nm \<le> 12" unfolding nm_def using m by (rule nextmonth_range)+
  have nd': "28 \<le> days_in_month ny nm" using nm by (rule days_in_month_range)
  have db: "0 \<le> db" "db < 7" unfolding db_def by (rule first_weekday_range)+
  have da: "0 \<le> da" "da < 7" unfolding da_def by (rule days_after_range)+
  have nd: "28 \<le> nd" unfolding nd_def using m by (rule days_in_month_range)
  have i: "7 * int i - db' = da"
    unfolding i_def db'_def da_def ny_def nm_def using m by (rule first_weekday_next_row)
  have w: "7 * int w = db + nd + da"
    using int_ncells[OF m, of y] ncells_weeks(1)[OF m, of y]
    by (simp add: w_def db_def nd_def da_def)
  have L: "cell ny nm (7 * (i + r) + j) = mk_date ny nm (da + 7 * int r + int j + 1)"
  proof -
    have "\<not> int (7 * (i + r) + j) < db'" using i da by simp
    moreover have "int (7 * (i + r) + j) < db' + days_in_month ny nm"
      using i da nd' j r by simp
    ultimately have "cell ny nm (7 * (i + r) + j)
        = mk_date ny nm (int (7 * (i + r) + j) - db' + 1)"
      by (simp add: cell_def Let_def db'_def)
    also have "int (7 * (i + r) + j) - db' + 1 = da + 7 * int r + int j + 1"
      using i by simp
    finally show ?thesis .
  qed
  have R: "cell y m (7 * (w + r) + j) = mk_date ny nm (da + 7 * int r + int j + 1)"
  proof -
    have k: "int (7 * (w + r) + j) = db + nd + da + 7 * int r + int j" using w by simp
    then have "\<not> int (7 * (w + r) + j) < db" "\<not> int (7 * (w + r) + j) < db + nd"
      using da nd by simp_all
    then have "cell y m (7 * (w + r) + j)
        = mk_date ny nm (int (7 * (w + r) + j) - db - nd + 1)"
      by (simp add: cell_def Let_def db_def nd_def ny_def nm_def case_prod_beta)
    then show ?thesis unfolding k by (simp add: algebra_simps)
  qed
  show ?thesis using L R by (simp add: ny_def nm_def i_def w_def)
qed

lemma month_last_cell:
  assumes m: "1 \<le> m" "m \<le> 12"
  shows "(month (cell y m (7 * (nweeks y m - 1) + 6)) = m) = (days_after y m = 0)"
proof -
  define db where "db = first_weekday y m"
  define nd where "nd = days_in_month y m"
  define da where "da = days_after y m"
  define w where "w = nweeks y m"
  have db: "0 \<le> db" "db < 7" unfolding db_def by (rule first_weekday_range)+
  have da: "0 \<le> da" "da < 7" unfolding da_def by (rule days_after_range)+
  have nd: "28 \<le> nd" unfolding nd_def using m by (rule days_in_month_range)
  have w4: "4 \<le> w" unfolding w_def using m by (rule ncells_weeks)
  have w: "7 * int w = db + nd + da"
    using int_ncells[OF m, of y] ncells_weeks(1)[OF m, of y]
    by (simp add: w_def db_def nd_def da_def)
  have k: "int (7 * (w - 1) + 6) = db + nd + da - 1" using w w4 by simp
  have nm: "snd (nextmonth y m) \<noteq> m" by (simp add: nextmonth_def)
  show ?thesis
  proof (cases "da = 0")
    case True
    then have "cell y m (7 * (w - 1) + 6) = mk_date y m (int (7 * (w - 1) + 6) - db + 1)"
      using k db nd unfolding cell_def Let_def db_def[symmetric] nd_def[symmetric] by simp
    then show ?thesis using True by (simp add: mk_date_def w_def da_def)
  next
    case False
    then have "cell y m (7 * (w - 1) + 6)
        = mk_date (fst (nextmonth y m)) (snd (nextmonth y m)) (int (7 * (w - 1) + 6) - db - nd + 1)"
      using k db nd da unfolding cell_def Let_def db_def[symmetric] nd_def[symmetric]
      by (simp add: case_prod_beta)
    then show ?thesis using False nm by (simp add: mk_date_def w_def da_def)
  qed
qed

subsection \<open>The dates of the displayed grid\<close>

lemma grid_rows: "grid y m = map (row y m) [0 ..< 6]"
  by (simp add: grid_def row_def)

lemma monthdatescalendar_rows:
  assumes "1 \<le> y" "y \<le> 9999" "1 \<le> m" "m \<le> 12" "y < 9999 \<or> m < 12"
  shows "monthdatescalendar MONDAY y m = Inr (map (row y m) [0 ..< nweeks y m])"
  using monthdatescalendar_ok[OF assms] by (simp add: row_def)

lemma row_overlap:
  assumes m: "1 \<le> m" "m \<le> 12" and r: "r \<le> 1"
  shows "row (fst (nextmonth y m)) (snd (nextmonth y m)) (next_row y m + r)
    = row y m (nweeks y m + r)"
  unfolding row_def
  by (rule map_cong[OF refl], rule cell_overlap[OF m _ r], simp)

lemma last_row: "last (row y m i) = cell y m (7 * i + 6)"
proof -
  have "[0 ..< 7] = [0 ..< 6] @ [6::nat]" by (simp add: upt_rec)
  then show ?thesis by (simp add: row_def)
qed

lemma next_m_y_eq: "next_m_y m y = (snd (nextmonth y m), fst (nextmonth y m))"
  by (simp add: next_m_y_def nextmonth_def Let_def)

lemma extend_cal_step:
  assumes "py_last cal = Inr lw" "py_last lw = Inr ld"
    and "(if month ld = mo then 0 else 1) = i"
    and "monthdatescalendar MONDAY y nxt = Inr nc"
    and "py_nth nc i = Inr r0" "py_nth nc (Suc i) = Inr r1"
  shows "extend_cal mo y nxt cal =
    (if length cal < 6
     then (if length cal + 1 < 6 then Inr (cal @ [r0, r1]) else Inr (cal @ [r0]))
     else Inr cal)"
  by (simp add: extend_cal_def ebind_def Let_def assms)

lemma display_dates_ok:
  assumes "displayable y m"
  shows "display_dates y m = Inr (grid y m)"
proof -
  define ny where "ny = fst (nextmonth y m)"
  define nm where "nm = snd (nextmonth y m)"
  define w where "w = nweeks y m"
  define i where "i = next_row y m"
  from assms have y: "1 \<le> y" "y \<le> 9999" and m: "1 \<le> m" "m \<le> 12"
    and notlast: "y < 9999 \<or> m < 12" and d: "y < 9999 \<or> m < 11"
    by (auto simp add: displayable_def)
  have ny: "1 \<le> ny" "ny \<le> 9999" using y m d by (auto simp add: ny_def nextmonth_def)
  have nm: "1 \<le> nm" "nm \<le> 12" unfolding nm_def using m by (rule nextmonth_range)+
  have nlast: "ny < 9999 \<or> nm < 12" using y m d by (auto simp add: ny_def nm_def nextmonth_def)
  have w: "4 \<le> w" "w \<le> 6" unfolding w_def using m by (rule ncells_weeks)+
  have w': "4 \<le> nweeks ny nm" using nm by (rule ncells_weeks)
  have i: "i \<le> 1" by (simp add: i_def next_row_def)
  have cal: "monthdatescalendar MONDAY y m = Inr (map (row y m) [0 ..< w])"
    unfolding w_def using y m notlast by (rule monthdatescalendar_rows)
  have nc: "monthdatescalendar MONDAY ny nm = Inr (map (row ny nm) [0 ..< nweeks ny nm])"
    using ny nm nlast by (rule monthdatescalendar_rows)
  have r0: "row ny nm i = row y m w"
    using row_overlap[OF m, of 0 y] by (simp add: ny_def nm_def i_def w_def)
  have r1: "row ny nm (Suc i) = row y m (Suc w)"
    using row_overlap[OF m, of 1 y] by (simp add: ny_def nm_def i_def w_def)
  have nth0: "py_nth (map (row ny nm) [0 ..< nweeks ny nm]) i = Inr (row y m w)"
    using i w' r0 by (simp add: py_nth_def)
  have nth1: "py_nth (map (row ny nm) [0 ..< nweeks ny nm]) (Suc i) = Inr (row y m (Suc w))"
    using i w' r1 by (simp add: py_nth_def)
  have lastday: "(if month (cell y m (7 * (w - 1) + 6)) = m then 0 else 1) = i"
    using month_last_cell[OF m, of y] by (simp add: w_def i_def next_row_def)
  have lw: "py_last (map (row y m) [0 ..< w]) = Inr (row y m (w - 1))"
    using w by (simp add: py_last_def last_map)
  have ld: "py_last (row y m (w - 1)) = Inr (cell y m (7 * (w - 1) + 6))"
    using last_row[of y m "w - 1"] by (simp add: py_last_def row_def)
  have ext: "extend_cal m ny nm (map (row y m) [0 ..< w]) =
    (if w < 6
     then (if w + 1 < 6 then Inr (map (row y m) [0 ..< w] @ [row y m w, row y m (Suc w)])
           else Inr (map (row y m) [0 ..< w] @ [row y m w]))
     else Inr (map (row y m) [0 ..< w]))"
    using extend_cal_step[OF lw ld lastday nc nth0 nth1] by simp
  have "extend_cal m ny nm (map (row y m) [0 ..< w]) = Inr (map (row y m) [0 ..< 6])"
  proof -
    consider "w = 4" | "w = 5" | "w = 6" using w by linarith
    then show ?thesis
    proof cases
      case 1
      have u: "[0 ..< 6] = [0 ..< 4] @ [4, Suc 4]" by (simp add: upt_rec)
      show ?thesis unfolding ext unfolding 1 u by simp
    next
      case 2
      have u: "[0 ..< 6] = [0 ..< 5] @ [5::nat]" by (simp add: upt_rec)
      show ?thesis unfolding ext unfolding 2 u by simp
    next
      case 3
      show ?thesis unfolding ext unfolding 3 by simp
    qed
  qed
  then show ?thesis
    unfolding display_dates_def cal grid_rows
    by (simp add: ebind_def next_m_y_eq ny_def nm_def)
qed

lemma cell_cases:
  obtains (before) "int k < first_weekday y m"
      "cell y m k = mk_date (fst (prevmonth y m)) (snd (prevmonth y m))
         (days_in_month (fst (prevmonth y m)) (snd (prevmonth y m)) - first_weekday y m + 1 + int k)"
    | (inside) "first_weekday y m \<le> int k" "int k < first_weekday y m + days_in_month y m"
      "cell y m k = mk_date y m (int k - first_weekday y m + 1)"
    | (after) "first_weekday y m + days_in_month y m \<le> int k"
      "cell y m k = mk_date (fst (nextmonth y m)) (snd (nextmonth y m))
         (int k - first_weekday y m - days_in_month y m + 1)"
proof -
  consider "int k < first_weekday y m"
    | "first_weekday y m \<le> int k" "int k < first_weekday y m + days_in_month y m"
    | "first_weekday y m + days_in_month y m \<le> int k" "\<not> int k < first_weekday y m"
    using days_in_month_range(1)[of m y] by linarith
  then show thesis
  proof cases
    case 1
    then show ?thesis by (intro before) (simp_all add: cell_def Let_def case_prod_beta)
  next
    case 2
    then show ?thesis by (intro inside) (simp_all add: cell_def Let_def)
  next
    case 3
    then show ?thesis by (intro after) (simp_all add: cell_def Let_def case_prod_beta)
  qed
qed

lemma toordinal_cell:
  assumes m: "1 \<le> m" "m \<le> 12"
  shows "toordinal (cell y m k) = ymd2ord y m 1 - first_weekday y m + int k"
proof (cases rule: cell_cases[where k = k and y = y and m = m])
  case before
  have "ymd2ord (fst (prevmonth y m)) (snd (prevmonth y m)) 1
      + days_in_month (fst (prevmonth y m)) (snd (prevmonth y m)) = ymd2ord y m 1"
    using ymd2ord_prevmonth[OF m, of y] by (simp add: case_prod_beta)
  then show ?thesis
    unfolding before(2) toordinal_mk_date
    by (subst ymd2ord_day) linarith
next
  case inside
  then show ?thesis
    unfolding inside(3) toordinal_mk_date by (subst ymd2ord_day) linarith
next
  case after
  have "ymd2ord (fst (nextmonth y m)) (snd (nextmonth y m)) 1
      = ymd2ord y m 1 + days_in_month y m"
    using ymd2ord_nextmonth[OF m, of y] by (simp add: case_prod_beta)
  then show ?thesis
    unfolding after(2) toordinal_mk_date
    by (subst ymd2ord_day) linarith
qed

lemma date_valid_cell:
  assumes "displayable y m" "k < 42"
  shows "date_valid (cell y m k)"
proof -
  from assms have y: "1 \<le> y" "y \<le> 9999" and m: "1 \<le> m" "m \<le> 12"
    and d: "y < 9999 \<or> m < 11"
    by (auto simp add: displayable_def)
  have db: "0 \<le> first_weekday y m" "first_weekday y m < 7" by (rule first_weekday_range)+
  have nd: "28 \<le> days_in_month y m" using m by (rule days_in_month_range)
  show ?thesis
  proof (cases rule: cell_cases[where k = k and y = y and m = m])
    case before
    have pm: "1 \<le> snd (prevmonth y m)" "snd (prevmonth y m) \<le> 12"
      using m by (rule prevmonth_range)+
    have pl: "28 \<le> days_in_month (fst (prevmonth y m)) (snd (prevmonth y m))"
      using pm by (rule days_in_month_range)
    have "\<not> (y = 1 \<and> m = 1)" using before(1) first_weekday_1_1 by auto
    then have "1 \<le> fst (prevmonth y m)" "fst (prevmonth y m) \<le> 9999"
      using y m by (auto simp add: prevmonth_def)
    then show ?thesis
      unfolding before(2) date_valid_mk_date using pm pl before(1) db by simp
  next
    case inside
    then show ?thesis unfolding inside(3) date_valid_mk_date using y m by simp
  next
    case after
    have nm: "1 \<le> snd (nextmonth y m)" "snd (nextmonth y m) \<le> 12"
      using m by (rule nextmonth_range)+
    have nl: "28 \<le> days_in_month (fst (nextmonth y m)) (snd (nextmonth y m))"
      using nm by (rule days_in_month_range)
    have "1 \<le> fst (nextmonth y m)" "fst (nextmonth y m) \<le> 9999"
      using y m d by (auto simp add: nextmonth_def)
    then show ?thesis
      unfolding after(2) date_valid_mk_date using nm nl after(1) db nd assms(2) by simp
  qed
qed

lemma month_cell:
  "month (cell y m k) = m \<or> month (cell y m k) = snd (nextmonth y m)
     \<or> month (cell y m k) = snd (prevmonth y m)"
  by (cases rule: cell_cases[where k = k and y = y and m = m]) simp_all

lemma cell_month_day:
  assumes m: "1 \<le> m" "m \<le> 12" and d: "1 \<le> d" "d \<le> days_in_month y m"
  shows "cell y m (nat (first_weekday y m + d - 1)) = mk_date y m d"
proof -
  have db: "0 \<le> first_weekday y m" by (rule first_weekday_range)
  then have k: "int (nat (first_weekday y m + d - 1)) = first_weekday y m + d - 1"
    using d by simp
  show ?thesis
    unfolding cell_def Let_def k using d by simp
qed

lemma weekday_cell_0:
  assumes m: "1 \<le> m" "m \<le> 12"
  shows "date_weekday (cell y m 0) = 0"
proof -
  have "toordinal (cell y m 0) + 6 = (ymd2ord y m 1 + 6) - (ymd2ord y m 1 + 6) mod 7"
    unfolding toordinal_cell[OF m] by (simp add: first_weekday_def)
  then show ?thesis
    unfolding date_weekday_def by (simp add: minus_mod_eq_mult_div)
qed

subsection \<open>Adding days\<close>

lemma days_before_year_mono:
  assumes "y \<le> y'"
  shows "days_before_year y \<le> days_before_year y'"
  using assms
proof (induction y' rule: int_ge_induct)
  case base
  then show ?case by simp
next
  case (step i)
  have "days_before_year (i + 1) = days_before_year i + (if is_leap i then 366 else 365)"
    by (rule days_before_year_succ)
  then show ?case using step.IH by (simp split: if_splits)
qed

lemma days_before_year_1: "days_before_year 1 = 0"
  by (simp add: days_before_year_def)

lemma days_before_year_10000: "days_before_year 10000 = 3652059"
  by (simp add: days_before_year_def)

lemma toordinal_range:
  assumes "date_valid d"
  shows "1 \<le> toordinal d" "toordinal d \<le> MAXORDINAL"
proof -
  let ?y = "year d" and ?m = "month d"
  from assms have y: "1 \<le> ?y" "?y \<le> 9999" and m: "1 \<le> ?m" "?m \<le> 12"
    and dd: "1 \<le> day d" "day d \<le> days_in_month ?y ?m"
    by (simp_all add: date_valid_def MINYEAR_def MAXYEAR_def)
  have lo: "0 \<le> days_before_month ?y ?m + day d - 1"
    and hi: "days_before_month ?y ?m + day d - 1 \<le> (if is_leap ?y then 365 else 364)"
    using yday_bounds[OF m dd] by blast+
  have "days_before_year 1 \<le> days_before_year ?y" using y by (intro days_before_year_mono)
  then show "1 \<le> toordinal d"
    using lo by (simp add: toordinal_def ymd2ord_def days_before_year_1)
  have "days_before_year (?y + 1) \<le> days_before_year 10000"
    using y by (intro days_before_year_mono) simp
  then show "toordinal d \<le> MAXORDINAL"
    using hi by (simp add: toordinal_def ymd2ord_def days_before_year_succ
        days_before_year_10000 MAXORDINAL_def split: if_splits)
qed

lemma date_eq_mk_date: "d = mk_date (year d) (month d) (day d)"
  by (simp add: mk_date_def)

lemma date_add_days_known:
  assumes "date_valid d'" "toordinal d' = toordinal d + n"
  shows "date_add_days d n = Inr d'"
  using toordinal_range[OF assms(1)] fromordinal_toordinal[OF assms(1)] assms(2)
  by (simp add: date_add_days_def Let_def)

lemma first_of_month:
  assumes "date_valid d" "day d = 1"
  shows "d = mk_date (year d) (month d) 1"
  using assms date_eq_mk_date[of d] by simp

lemma add_month_length:
  assumes y: "1 \<le> y" "y \<le> 9999" and m: "1 \<le> m" "m \<le> 12"
  shows "date_add_days (mk_date y m 1) (days_in_month y m) =
    (if y = 9999 \<and> m = 12 then Inl OverflowError
     else Inr (mk_date (fst (nextmonth y m)) (snd (nextmonth y m)) 1))"
proof (cases "y = 9999 \<and> m = 12")
  case True
  have "ymd2ord 9999 12 1 = 3652029"
    by (simp add: ymd2ord_def days_before_year_def month_tables is_leap_def)
  then show ?thesis
    using True by (simp add: date_add_days_def Let_def MAXORDINAL_def month_tables)
next
  case False
  let ?d' = "mk_date (fst (nextmonth y m)) (snd (nextmonth y m)) 1"
  have nm: "1 \<le> snd (nextmonth y m)" "snd (nextmonth y m) \<le> 12"
    using m by (rule nextmonth_range)+
  have "1 \<le> fst (nextmonth y m)" "fst (nextmonth y m) \<le> 9999"
    using y m False by (auto simp add: nextmonth_def)
  moreover have "1 \<le> days_in_month (fst (nextmonth y m)) (snd (nextmonth y m))"
    using days_in_month_range(1)[OF nm, of "fst (nextmonth y m)"] by linarith
  ultimately have v: "date_valid ?d'" using nm by (simp add: date_valid_mk_date)
  have "toordinal ?d' = toordinal (mk_date y m 1) + days_in_month y m"
    using ymd2ord_nextmonth[OF m, of y] by (simp add: case_prod_beta)
  then show ?thesis using False date_add_days_known[OF v] by simp
qed

lemma sub_one_day:
  assumes y: "1 \<le> y" "y \<le> 9999" and m: "1 \<le> m" "m \<le> 12"
  shows "date_add_days (mk_date y m 1) (- 1) =
    (if y = 1 \<and> m = 1 then Inl OverflowError
     else Inr (mk_date (fst (prevmonth y m)) (snd (prevmonth y m))
                 (days_in_month (fst (prevmonth y m)) (snd (prevmonth y m)))))"
proof (cases "y = 1 \<and> m = 1")
  case True
  have "ymd2ord 1 1 1 = 1"
    by (simp add: ymd2ord_def days_before_year_def month_tables)
  then show ?thesis using True by (simp add: date_add_days_def Let_def)
next
  case False
  let ?py = "fst (prevmonth y m)" and ?pm = "snd (prevmonth y m)"
  let ?d' = "mk_date ?py ?pm (days_in_month ?py ?pm)"
  have pm: "1 \<le> ?pm" "?pm \<le> 12" using m by (rule prevmonth_range)+
  have "1 \<le> ?py" "?py \<le> 9999" using y m False by (auto simp add: prevmonth_def)
  moreover have "1 \<le> days_in_month ?py ?pm" using days_in_month_range(1)[OF pm, of ?py] by linarith
  ultimately have v: "date_valid ?d'" using pm by (simp add: date_valid_mk_date)
  have "ymd2ord ?py ?pm 1 + days_in_month ?py ?pm = ymd2ord y m 1"
    using ymd2ord_prevmonth[OF m, of y] by (simp add: case_prod_beta)
  then have "toordinal ?d' = toordinal (mk_date y m 1) + (- 1)"
    by (simp add: ymd2ord_day[of ?py ?pm "days_in_month ?py ?pm"])
  then show ?thesis using False date_add_days_known[OF v] by simp
qed

section \<open>Facts about the widget\<close>

subsection \<open>What displaying leaves alone\<close>

lemma same_model_refl [simp]: "same_model s s"
  by (simp add: same_model_def)

lemma same_model_trans: "same_model s s' \<Longrightarrow> same_model s' s'' \<Longrightarrow> same_model s s''"
  by (simp add: same_model_def)

lemma same_model_configure [simp]:
  "same_model s (configure_day i j t sty s)"
  "same_model s (configure_style i j sty s)"
  "same_model s (configure_week_nb i n s)"
  by (simp_all add: same_model_def configure_day_def configure_style_def configure_week_nb_def)

lemma display_selection_same: "same_model s (display_selection s)"
  by (simp add: display_selection_def Let_def split: option.splits prod.splits)

lemma remove_selection_same: "same_model s (remove_selection s)"
  by (simp add: remove_selection_def Let_def split: option.splits prod.splits)

lemma fill_days_same: "same_model s (snd (fill_days mo nm pm cal i js s))"
proof (induction js arbitrary: s)
  case Nil
  then show ?case by simp
next
  case (Cons j js)
  show ?case
  proof (cases "ebind (py_nth cal i) (\<lambda>week. py_nth week j)")
    case (Inl e)
    then show ?thesis by simp
  next
    case (Inr c)
    show ?thesis
    proof (cases "months_lookup mo nm pm (month c)")
      case (Inl e)
      then show ?thesis using Inr by simp
    next
      case mk: (Inr k)
      have "same_model (configure_day i j (Some (day c)) (Day_style (week_days j) k) s)
        (snd (fill_days mo nm pm cal i js
           (configure_day i j (Some (day c)) (Day_style (week_days j) k) s)))"
        by (rule Cons.IH)
      then show ?thesis using Inr mk
        by (simp add: same_model_def configure_day_def)
    qed
  qed
qed

lemma andthen_same:
  assumes "same_model s (snd r)" "\<And>s'. same_model s s' \<Longrightarrow> same_model s (snd (f s'))"
  shows "same_model s (snd (andthen r f))"
  using assms by (cases r) (auto simp add: andthen_def split: option.splits)

lemma fill_weeks_same: "same_model s (snd (fill_weeks mo nm pm cal wn md is s))"
proof (induction "is" arbitrary: s)
  case Nil
  then show ?case by simp
next
  case (Cons i "is")
  have a: "same_model s (snd (fill_days mo nm pm cal i [0..<7]
      (configure_week_nb i ((wn + int i - 1) mod md + 1) s)))"
    using fill_days_same[of "configure_week_nb i ((wn + int i - 1) mod md + 1) s"]
    by (simp add: same_model_def configure_week_nb_def)
  show ?case
    unfolding fill_weeks.simps
    by (rule andthen_same[OF a]) (use Cons.IH in \<open>auto intro: same_model_trans\<close>)
qed

lemma display_calendar_same: "same_model s (snd (display_calendar s))"
proof (cases "display_dates (year (self_date s)) (month (self_date s))")
  case (Inl e)
  then show ?thesis by (simp add: display_calendar_def Let_def)
next
  case (Inr cal)
  show ?thesis
    unfolding display_calendar_def Let_def Inr sum.case
    by (rule andthen_same[OF fill_weeks_same])
       (auto intro: same_model_trans display_selection_same)
qed

subsection \<open>The loops of \<open>display_calendar\<close>\<close>

lemma fill_days_ok:
  assumes "i < length cal"
    and "\<And>j. j \<in> set js \<Longrightarrow> j < length (cal ! i) \<and>
      months_lookup mo nm pm (month (cal ! i ! j))
        = Inr (if month (cal ! i ! j) = mo then This_month else Other_month)"
  shows "fill_days mo nm pm cal i js s =
    (None, s\<lparr>self_calendar :=
        (\<lambda>rc. if fst rc = i \<and> snd rc \<in> set js then shown_label mo cal rc
              else self_calendar s rc)\<rparr>)"
  using assms(2)
proof (induction js arbitrary: s)
  case Nil
  then show ?case by simp
next
  case (Cons j js)
  have j: "j < length (cal ! i)"
    and lk: "months_lookup mo nm pm (month (cal ! i ! j))
      = Inr (if month (cal ! i ! j) = mo then This_month else Other_month)"
    using Cons.prems[of j] by simp_all
  have cellj: "ebind (py_nth cal i) (\<lambda>week. py_nth week j) = Inr (cal ! i ! j)"
    using assms(1) j by (simp add: ebind_def py_nth_def)
  have IH: "fill_days mo nm pm cal i js s' =
    (None, s'\<lparr>self_calendar :=
        (\<lambda>rc. if fst rc = i \<and> snd rc \<in> set js then shown_label mo cal rc
              else self_calendar s' rc)\<rparr>)" for s'
    by (rule Cons.IH) (use Cons.prems in simp)
  show ?case
    unfolding fill_days.simps cellj lk sum.case IH
    by (auto simp add: configure_day_def shown_label_def fun_eq_iff)
qed


lemma fill_weeks_ok:
  assumes "\<And>i j. i \<in> set is \<Longrightarrow> j < 7 \<Longrightarrow> i < length cal \<and> j < length (cal ! i) \<and>
      months_lookup mo nm pm (month (cal ! i ! j))
        = Inr (if month (cal ! i ! j) = mo then This_month else Other_month)"
  shows "fill_weeks mo nm pm cal wn md is s =
    (None, s\<lparr>self_week_nbs :=
               (\<lambda>i. if i \<in> set is then Some ((wn + int i - 1) mod md + 1)
                    else self_week_nbs s i),
             self_calendar :=
               (\<lambda>rc. if fst rc \<in> set is \<and> snd rc < 7 then shown_label mo cal rc
                     else self_calendar s rc)\<rparr>)"
  using assms
proof (induction "is" arbitrary: s)
  case Nil
  then show ?case by simp
next
  case (Cons i "is")
  have len: "i < length cal" using Cons.prems[of i 0] by simp
  have days: "fill_days mo nm pm cal i [0 ..< 7] s' =
    (None, s'\<lparr>self_calendar :=
        (\<lambda>rc. if fst rc = i \<and> snd rc \<in> set [0 ..< 7] then shown_label mo cal rc
              else self_calendar s' rc)\<rparr>)" for s'
    by (rule fill_days_ok[OF len]) (use Cons.prems[of i] in simp)
  have IH: "fill_weeks mo nm pm cal wn md is s' =
    (None, s'\<lparr>self_week_nbs :=
               (\<lambda>i. if i \<in> set is then Some ((wn + int i - 1) mod md + 1)
                    else self_week_nbs s' i),
             self_calendar :=
               (\<lambda>rc. if fst rc \<in> set is \<and> snd rc < 7 then shown_label mo cal rc
                     else self_calendar s' rc)\<rparr>)" for s'
    by (rule Cons.IH) (use Cons.prems in simp)
  show ?case
    unfolding fill_weeks.simps days andthen_def prod.case option.case IH
    by (auto simp add: configure_week_nb_def fun_eq_iff)
qed

lemma months_lookup_cell:
  assumes m: "1 \<le> m" "m \<le> 12"
  shows "months_lookup m (fst (next_m_y m y)) ((m - 2) mod 12 + 1) (month (cell y m k))
    = Inr (if month (cell y m k) = m then This_month else Other_month)"
proof -
  have nm: "fst (next_m_y m y) = snd (nextmonth y m)" by (simp add: next_m_y_eq)
  have pm: "(m - 2) mod 12 + 1 = snd (prevmonth y m)"
    using m by (cases rule: month_cases) (simp_all add: prevmonth_def)
  have ne: "snd (nextmonth y m) \<noteq> m" "snd (prevmonth y m) \<noteq> m"
    by (simp_all add: nextmonth_def prevmonth_def)
  show ?thesis
    unfolding nm pm using month_cell[of y m k] ne by (auto simp add: months_lookup_def)
qed

lemma grid_nth:
  assumes "i < 6" "j < 7"
  shows "grid y m ! i ! j = cell y m (7 * i + j)"
  using assms by (simp add: grid_def)

lemma length_grid [simp]: "length (grid y m) = 6"
  by (simp add: grid_def)

lemma length_grid_row [simp]: "i < 6 \<Longrightarrow> length (grid y m ! i) = 7"
  by (simp add: grid_def)

lemma display_calendar_ok:
  assumes "displayable (year (self_date s)) (month (self_date s))"
  shows "display_calendar s = (None, display_selection (shown s))"
proof -
  let ?y = "year (self_date s)"
  let ?m = "month (self_date s)"
  from assms have m: "1 \<le> ?m" "?m \<le> 12" by (simp_all add: displayable_def)
  have dd: "display_dates ?y ?m = Inr (grid ?y ?m)"
    using assms by (rule display_dates_ok)
  have fw: "fill_weeks ?m (fst (next_m_y ?m ?y)) ((?m - 2) mod 12 + 1) (grid ?y ?m) wn md [0 ..< 6] s =
    (None, s\<lparr>self_week_nbs :=
               (\<lambda>i. if i \<in> set [0 ..< 6] then Some ((wn + int i - 1) mod md + 1)
                    else self_week_nbs s i),
             self_calendar :=
               (\<lambda>rc. if fst rc \<in> set [0 ..< 6] \<and> snd rc < 7 then shown_label ?m (grid ?y ?m) rc
                     else self_calendar s rc)\<rparr>)" for wn md
  proof (rule fill_weeks_ok)
    fix i j :: nat assume "i \<in> set [0 ..< 6]" "j < 7"
    then have ij: "i < 6" "j < 7" by simp_all
    show "i < length (grid ?y ?m) \<and> j < length (grid ?y ?m ! i) \<and>
      months_lookup ?m (fst (next_m_y ?m ?y)) ((?m - 2) mod 12 + 1) (month (grid ?y ?m ! i ! j))
        = Inr (if month (grid ?y ?m ! i ! j) = ?m then This_month else Other_month)"
      using ij months_lookup_cell[OF m, of ?y "7 * i + j"] by (simp add: grid_nth)
  qed
  show ?thesis
    unfolding display_calendar_def Let_def dd sum.case fw
    by (simp add: andthen_def shown_def week_label_def cong: if_cong)
qed

lemma display_selection_text:
  "lbl_text (self_calendar (display_selection s) rc) = lbl_text (self_calendar s rc)"
  by (simp add: display_selection_def configure_style_def Let_def split: option.splits prod.splits)

lemma shown_text:
  assumes "r < 6" "c < 7"
  shows "lbl_text (self_calendar (shown s) (r, c))
    = Some (day (grid (year (self_date s)) (month (self_date s)) ! r ! c))"
  using assms by (simp add: shown_def shown_label_def)

lemma display_dates_last: "display_dates 9999 12 = Inl ValueError"
  by code_simp

lemma cell_of_day:
  assumes m: "1 \<le> m" "m \<le> 12" and d: "1 \<le> d" "d \<le> days_in_month y m"
  shows "\<exists>!rc. fst rc < 6 \<and> snd rc < 7 \<and> grid y m ! fst rc ! snd rc = mk_date y m d"
proof -
  define k where "k = nat (first_weekday y m + d - 1)"
  have db: "0 \<le> first_weekday y m" "first_weekday y m < 7" by (rule first_weekday_range)+
  have nd: "days_in_month y m \<le> 31" using m by (rule days_in_month_range)
  have k: "k < 42" "int k = first_weekday y m + d - 1" using db d nd by (simp_all add: k_def)
  have ck: "cell y m k = mk_date y m d" unfolding k_def using m d by (rule cell_month_day)
  show ?thesis
  proof (rule ex1I[where a = "(k div 7, k mod 7)"])
    show "fst (k div 7, k mod 7) < 6 \<and> snd (k div 7, k mod 7) < 7 \<and>
      grid y m ! fst (k div 7, k mod 7) ! snd (k div 7, k mod 7) = mk_date y m d"
      using k(1) ck by (simp add: grid_nth)
  next
    fix rc :: "nat \<times> nat"
    assume a: "fst rc < 6 \<and> snd rc < 7 \<and> grid y m ! fst rc ! snd rc = mk_date y m d"
    then have "grid y m ! fst rc ! snd rc = cell y m (7 * fst rc + snd rc)"
      by (intro grid_nth) simp_all
    then have "cell y m (7 * fst rc + snd rc) = cell y m k" using a ck by simp
    then have "toordinal (cell y m (7 * fst rc + snd rc)) = toordinal (cell y m k)" by simp
    then have "7 * fst rc + snd rc = k" unfolding toordinal_cell[OF m] by simp
    then have "fst rc = k div 7" "snd rc = k mod 7" using a by auto
    then show "rc = (k div 7, k mod 7)" by (simp add: prod_eq_iff)
  qed
qed

subsection \<open>The navigation callbacks\<close>

lemma date_invD:
  assumes "date_inv s"
  shows "1 \<le> year (self_date s)" "year (self_date s) \<le> 9999"
    "1 \<le> month (self_date s)" "month (self_date s) \<le> 12"
    "self_date s = mk_date (year (self_date s)) (month (self_date s)) 1"
  using assms first_of_month[of "self_date s"]
  by (simp_all add: date_inv_def date_valid_def MINYEAR_def MAXYEAR_def)

lemma date_new_first:
  assumes "1 \<le> y" "y \<le> 9999" "1 \<le> m" "m \<le> 12"
  shows "date_new y m 1 = Inr (mk_date y m 1)"
  using assms days_in_month_range(1)[of m y] by (intro date_new_ok) simp_all

lemma next_month_eq:
  assumes "date_inv s"
  shows "next_month s =
    (if year (self_date s) = 9999 \<and> month (self_date s) = 12 then (Some OverflowError, s)
     else display_calendar
            (s\<lparr>self_date := mk_date (fst (nextmonth (year (self_date s)) (month (self_date s))))
                               (snd (nextmonth (year (self_date s)) (month (self_date s)))) 1\<rparr>))"
proof -
  let ?y = "year (self_date s)" and ?m = "month (self_date s)"
  note d = date_invD[OF assms]
  have mr: "monthrange ?y ?m = Inr (first_weekday ?y ?m, days_in_month ?y ?m)"
    using d(1-4) by (rule monthrange_ok)
  have "date_add_days (self_date s) (days_in_month ?y ?m)
      = date_add_days (mk_date ?y ?m 1) (days_in_month ?y ?m)"
    using d(5) by simp
  also have "\<dots> = (if ?y = 9999 \<and> ?m = 12 then Inl OverflowError
     else Inr (mk_date (fst (nextmonth ?y ?m)) (snd (nextmonth ?y ?m)) 1))"
    using d(1-4) by (rule add_month_length)
  finally have add: "date_add_days (self_date s) (days_in_month ?y ?m) =
    (if ?y = 9999 \<and> ?m = 12 then Inl OverflowError
     else Inr (mk_date (fst (nextmonth ?y ?m)) (snd (nextmonth ?y ?m)) 1))" .
  show ?thesis
  proof (cases "?y = 9999 \<and> ?m = 12")
    case True
    show ?thesis by (simp add: next_month_def Let_def mr add if_P[OF True])
  next
    case False
    show ?thesis by (simp add: next_month_def Let_def mr add if_not_P[OF False])
  qed
qed

lemma prev_month_eq:
  assumes "date_inv s"
  shows "prev_month s =
    (if year (self_date s) = 1 \<and> month (self_date s) = 1 then (Some OverflowError, s)
     else display_calendar
            (s\<lparr>self_date := mk_date (fst (prevmonth (year (self_date s)) (month (self_date s))))
                               (snd (prevmonth (year (self_date s)) (month (self_date s)))) 1\<rparr>))"
proof -
  let ?y = "year (self_date s)" and ?m = "month (self_date s)"
  let ?py = "fst (prevmonth ?y ?m)" and ?pm = "snd (prevmonth ?y ?m)"
  note d = date_invD[OF assms]
  have "date_add_days (self_date s) (- 1) = date_add_days (mk_date ?y ?m 1) (- 1)"
    using d(5) by simp
  also have "\<dots> = (if ?y = 1 \<and> ?m = 1 then Inl OverflowError
     else Inr (mk_date ?py ?pm (days_in_month ?py ?pm)))"
    using d(1-4) by (rule sub_one_day)
  finally have sub: "date_add_days (self_date s) (- 1) =
    (if ?y = 1 \<and> ?m = 1 then Inl OverflowError
     else Inr (mk_date ?py ?pm (days_in_month ?py ?pm)))" .
  show ?thesis
  proof (cases "?y = 1 \<and> ?m = 1")
    case True
    show ?thesis by (simp add: prev_month_def sub if_P[OF True])
  next
    case False
    have pm: "1 \<le> ?pm" "?pm \<le> 12" using d(3,4) by (rule prevmonth_range)+
    have py: "1 \<le> ?py" "?py \<le> 9999" using d(1-4) False by (auto simp add: prevmonth_def)
    have "replace_day (mk_date ?py ?pm (days_in_month ?py ?pm)) 1 = Inr (mk_date ?py ?pm 1)"
      using date_new_first[OF py pm] by (simp add: replace_day_def)
    then show ?thesis by (simp add: prev_month_def sub if_not_P[OF False])
  qed
qed

lemma next_year_eq:
  assumes "date_inv s"
  shows "next_year s =
    (if year (self_date s) = 9999 then (Some ValueError, s)
     else display_calendar
            (s\<lparr>self_date := mk_date (year (self_date s) + 1) (month (self_date s)) 1\<rparr>))"
proof -
  note d = date_invD[OF assms]
  have dy: "day (self_date s) = 1" using assms by (simp add: date_inv_def)
  show ?thesis
  proof (cases "year (self_date s) = 9999")
    case True
    then show ?thesis
      using d(3,4) dy
      by (simp add: next_year_def replace_year_def date_new_def MINYEAR_def MAXYEAR_def
          fits_c_int_small)
  next
    case False
    then have "date_new (year (self_date s) + 1) (month (self_date s)) 1
        = Inr (mk_date (year (self_date s) + 1) (month (self_date s)) 1)"
      using d(1-4) by (intro date_new_first) simp_all
    then show ?thesis using False dy by (simp add: next_year_def replace_year_def)
  qed
qed

lemma prev_year_eq:
  assumes "date_inv s"
  shows "prev_year s =
    (if year (self_date s) = 1 then (Some ValueError, s)
     else display_calendar
            (s\<lparr>self_date := mk_date (year (self_date s) - 1) (month (self_date s)) 1\<rparr>))"
proof -
  note d = date_invD[OF assms]
  have dy: "day (self_date s) = 1" using assms by (simp add: date_inv_def)
  show ?thesis
  proof (cases "year (self_date s) = 1")
    case True
    then show ?thesis
      using d(3,4) dy
      by (simp add: prev_year_def replace_year_def date_new_def MINYEAR_def MAXYEAR_def
          fits_c_int_small)
  next
    case False
    then have "date_new (year (self_date s) - 1) (month (self_date s)) 1
        = Inr (mk_date (year (self_date s) - 1) (month (self_date s)) 1)"
      using d(1-4) by (intro date_new_first) simp_all
    then show ?thesis using False dy by (simp add: prev_year_def replace_year_def)
  qed
qed

lemma self_date_display_calendar [simp]:
  "self_date (snd (display_calendar s)) = self_date s"
  using display_calendar_same[of s] by (simp add: same_model_def)

lemma date_inv_mk_date:
  assumes "1 \<le> y" "y \<le> 9999" "1 \<le> m" "m \<le> 12"
  shows "date_inv (s\<lparr>self_date := mk_date y m 1\<rparr>)"
  using assms days_in_month_range(1)[of m y] by (simp add: date_inv_def date_valid_mk_date)

lemma date_inv_cong: "self_date s' = self_date s \<Longrightarrow> date_inv s' = date_inv s"
  by (simp add: date_inv_def)

lemma date_inv_display_calendar [simp]: "date_inv (snd (display_calendar s)) = date_inv s"
  by (rule date_inv_cong) simp

lemma date_inv_next_month: "date_inv s \<Longrightarrow> date_inv (snd (next_month s))"
proof -
  assume a: "date_inv s"
  note d = date_invD[OF a]
  show ?thesis
  proof (cases "year (self_date s) = 9999 \<and> month (self_date s) = 12")
    case True
    then show ?thesis using a by (simp add: next_month_eq)
  next
    case False
    have "date_inv (s\<lparr>self_date := mk_date (fst (nextmonth (year (self_date s)) (month (self_date s))))
                               (snd (nextmonth (year (self_date s)) (month (self_date s)))) 1\<rparr>)"
      using d(1-4) False by (intro date_inv_mk_date) (auto simp add: nextmonth_def)
    then show ?thesis using a False by (simp add: next_month_eq)
  qed
qed

lemma date_inv_prev_month: "date_inv s \<Longrightarrow> date_inv (snd (prev_month s))"
proof -
  assume a: "date_inv s"
  note d = date_invD[OF a]
  show ?thesis
  proof (cases "year (self_date s) = 1 \<and> month (self_date s) = 1")
    case True
    then show ?thesis using a by (simp add: prev_month_eq)
  next
    case False
    have "date_inv (s\<lparr>self_date := mk_date (fst (prevmonth (year (self_date s)) (month (self_date s))))
                               (snd (prevmonth (year (self_date s)) (month (self_date s)))) 1\<rparr>)"
      using d(1-4) False by (intro date_inv_mk_date) (auto simp add: prevmonth_def)
    then show ?thesis using a False by (simp add: prev_month_eq)
  qed
qed

lemma date_inv_next_year: "date_inv s \<Longrightarrow> date_inv (snd (next_year s))"
proof -
  assume a: "date_inv s"
  note d = date_invD[OF a]
  show ?thesis
  proof (cases "year (self_date s) = 9999")
    case True
    then show ?thesis using a by (simp add: next_year_eq)
  next
    case False
    have "date_inv (s\<lparr>self_date := mk_date (year (self_date s) + 1) (month (self_date s)) 1\<rparr>)"
      using d(1-4) False by (intro date_inv_mk_date) simp_all
    then show ?thesis using a False by (simp add: next_year_eq)
  qed
qed

lemma date_inv_prev_year: "date_inv s \<Longrightarrow> date_inv (snd (prev_year s))"
proof -
  assume a: "date_inv s"
  note d = date_invD[OF a]
  show ?thesis
  proof (cases "year (self_date s) = 1")
    case True
    then show ?thesis using a by (simp add: prev_year_eq)
  next
    case False
    have "date_inv (s\<lparr>self_date := mk_date (year (self_date s) - 1) (month (self_date s)) 1\<rparr>)"
      using d(1-4) False by (intro date_inv_mk_date) simp_all
    then show ?thesis using a False by (simp add: prev_year_eq)
  qed
qed

subsection \<open>The constructor\<close>

lemma unshown_sel [simp]:
  "self_sel_date (unshown sel d tv mode st) = sel"
  "self_date (unshown sel d tv mode st) = d"
  "self_textvariable (unshown sel d tv mode st) = tv"
  "self_selectmode (unshown sel d tv mode st) = mode"
  "self_state (unshown sel d tv mode st) = st"
  "events (unshown sel d tv mode st) = []"
  by (simp_all add: unshown_def)

lemma shown_same: "same_model s (shown s)"
  by (simp add: same_model_def shown_def)

lemma constructed_same: "same_model (unshown sel d tv mode st) (constructed sel d tv mode st)"
  unfolding constructed_def
  by (rule same_model_trans[OF shown_same display_selection_same])

lemma constructed_sel [simp]:
  "self_sel_date (constructed sel d tv mode st) = sel"
  "self_date (constructed sel d tv mode st) = d"
  "self_textvariable (constructed sel d tv mode st) = tv"
  "self_selectmode (constructed sel d tv mode st) = mode"
  "self_state (constructed sel d tv mode st) = st"
  "events (constructed sel d tv mode st) = []"
  using constructed_same[of sel d tv mode st] by (simp_all add: same_model_def)

lemma display_calendar_unshown:
  assumes "displayable (year d) (month d)"
  shows "display_calendar (unshown sel d tv mode st) = (None, constructed sel d tv mode st)"
  unfolding constructed_def by (rule display_calendar_ok) (use assms in simp)

lemma py_is_literal [simp]:
  "py_eq (literal cs) cs' \<longleftrightarrow> cs = cs'"
  "py_is (literal cs) cs' \<longleftrightarrow> cs = cs'"
  by (simp_all add: py_is_def py_eq_def literal_def)

lemma py_is_eq: "py_is v cs \<Longrightarrow> py_eq v cs"
  by (simp add: py_is_def py_eq_def)

lemma init_borderwidth_ok:
  assumes "kw_borderwidth kw = None
    \<or> (\<exists>bd. kw_borderwidth kw = Some (Inr bd) \<and> 0 \<le> bd \<and> bd \<le> INT_MAX)"
  shows "\<exists>bd. init_borderwidth kw = Inr bd \<and> pack_pad bd = None"
  using assms by (auto simp add: init_borderwidth_def pack_pad_def INT_MAX_def)

lemma init_ok:
  assumes dates: "init_dates L kw = Inr (sel, tv, d)"
    and bd: "kw_borderwidth kw = None
      \<or> (\<exists>bd. kw_borderwidth kw = Some (Inr bd) \<and> 0 \<le> bd \<and> bd \<le> INT_MAX)"
    and mode: "kw_selectmode kw = None
      \<or> (\<exists>v. kw_selectmode kw = Some v \<and> (py_eq v ''day'' \<or> py_eq v ''none''))"
    and st: "kw_state kw = None
      \<or> (\<exists>v. kw_state kw = Some v \<and> (py_eq v ''normal'' \<or> py_eq v ''disabled''))"
    and disp: "displayable (year d) (month d)"
  shows "init L kw =
    Inr (constructed sel d tv
           (if (case kw_selectmode kw of None \<Rightarrow> True | Some v \<Rightarrow> py_is v ''day'')
            then Mode_day else Mode_none)
           (if (case kw_state kw of None \<Rightarrow> True | Some v \<Rightarrow> py_is v ''normal'')
            then Normal else Disabled))"
proof -
  define sm where "sm = (case kw_selectmode kw of Some v \<Rightarrow> v | None \<Rightarrow> literal ''day'')"
  define state where "state = (case kw_state kw of Some v \<Rightarrow> v | None \<Rightarrow> literal ''normal'')"
  define mode_flag where "mode_flag = (if py_is sm ''day'' then Mode_day else Mode_none)"
  define state_flag where "state_flag = (if py_is state ''normal'' then Normal else Disabled)"
  from init_borderwidth_ok[OF bd] obtain b where
    b: "init_borderwidth kw = Inr b" "pack_pad b = None" by blast
  have sm_ok: "\<not> (\<not> py_eq sm ''none'' \<and> \<not> py_eq sm ''day'')"
    using mode by (auto simp add: sm_def)
  have state_ok: "\<not> (\<not> py_eq state ''normal'' \<and> \<not> py_eq state ''disabled'')"
    using st by (auto simp add: state_def)
  have mf: "mode_flag =
      (if (case kw_selectmode kw of None \<Rightarrow> True | Some v \<Rightarrow> py_is v ''day'')
       then Mode_day else Mode_none)"
    by (simp add: mode_flag_def sm_def split: option.splits)
  have sf: "state_flag =
      (if (case kw_state kw of None \<Rightarrow> True | Some v \<Rightarrow> py_is v ''normal'')
       then Normal else Disabled)"
    by (simp add: state_flag_def state_def split: option.splits)
  have set_state: "setitem_state state s = (None, s\<lparr>self_state := state_flag\<rparr>)" for s
    using state_ok by (simp add: setitem_state_def state_flag_def)
  have shown: "display_calendar (unshown sel d tv mode_flag state_flag)
      = (None, constructed sel d tv mode_flag state_flag)"
    by (rule display_calendar_unshown[OF disp])
  have sm_eq: "(case kw_selectmode kw of None \<Rightarrow> literal ''day'' | Some v \<Rightarrow> v) = sm"
    by (simp add: sm_def)
  have st_eq: "(case kw_state kw of None \<Rightarrow> literal ''normal'' | Some v \<Rightarrow> v) = state"
    by (simp add: state_def)
  have "init L kw = Inr (constructed sel d tv mode_flag state_flag)"
    by (simp only: init_def Let_def st_eq sm_eq b dates ebind_def sum.case prod.case
        mode_flag_def[symmetric] state_flag_def[symmetric])
      (simp add: sm_ok[simplified] set_state shown[unfolded unshown_def])
  then show ?thesis by (simp only: mf sf)
qed

lemma display_calendar_date_inv:
  assumes "display_calendar s1 = (e, s)"
  shows "date_inv s = date_inv s1"
  using date_inv_display_calendar[of s1] assms by simp

lemma init_Inr_date_inv:
  assumes "init L kw = Inr s"
  shows "date_inv s"
proof -
  from assms obtain bd where bd: "init_borderwidth kw = Inr bd"
    by (cases "init_borderwidth kw") (auto simp add: init_def ebind_def Let_def)
  with assms obtain sel tv d where dates: "init_dates L kw = Inr (sel, tv, d)"
    by (cases "init_dates L kw") (auto simp add: init_def ebind_def Let_def)
  then obtain yr mo where "date_new yr mo 1 = Inr d"
    by (auto simp add: init_dates_def Let_def ebind_def split: if_splits sum.splits option.splits)
  then have d: "date_valid d" "day d = 1" using date_new_Inr[of yr mo 1 d] by simp_all
  from assms bd dates show ?thesis
    by (auto simp add: init_def ebind_def Let_def setitem_state_def date_inv_def d
        split: if_splits option.splits prod.splits dest!: display_calendar_date_inv)
qed

subsection \<open>The displayed month stays a first of a month\<close>

lemma date_inv_updates [simp]:
  "date_inv (s\<lparr>self_sel_date := a\<rparr>) = date_inv s"
  "date_inv (s\<lparr>self_textvariable := b\<rparr>) = date_inv s"
  "date_inv (s\<lparr>events := c\<rparr>) = date_inv s"
  "date_inv (s\<lparr>self_selectmode := e\<rparr>) = date_inv s"
  "date_inv (s\<lparr>self_state := f\<rparr>) = date_inv s"
  "date_inv (s\<lparr>self_date := d\<rparr>) = (date_valid d \<and> day d = 1)"
  by (simp_all add: date_inv_def)

lemma date_inv_selection [simp]:
  "date_inv (display_selection s) = date_inv s"
  "date_inv (remove_selection s) = date_inv s"
  using display_selection_same[of s] remove_selection_same[of s]
  by (simp_all add: date_inv_def same_model_def)

lemma replace_day_1:
  assumes "replace_day d 1 = Inr d1"
  shows "date_valid d1" "day d1 = 1"
  using date_new_Inr[of "year d" "month d" 1 d1] assms by (simp_all add: replace_day_def)

lemma andthen_snd:
  "snd (andthen r f) = (case fst r of None \<Rightarrow> snd (f (snd r)) | Some e \<Rightarrow> snd r)"
  by (cases r) (simp add: andthen_def split: option.splits)


lemma andthen_preserves:
  assumes "P (snd r)" "\<And>s'. P s' \<Longrightarrow> P (snd (f s'))"
  shows "P (snd (andthen r f))"
  using assms by (simp add: andthen_snd split: option.splits)

lemma date_inv_textvariable_trace:
  assumes "date_inv s"
  shows "date_inv (snd (textvariable_trace L s))"
  using assms
  by (auto simp add: textvariable_trace_def Let_def andthen_snd replace_day_1
      split: option.splits sum.splits)

lemma date_inv_textvariable_set:
  assumes "date_inv s"
  shows "date_inv (textvariable_set L v s)"
  unfolding textvariable_set_def
  by (rule date_inv_textvariable_trace) (use assms in simp)

lemma date_inv_write_textvariable:
  assumes "date_inv s"
  shows "date_inv (write_textvariable L v s)"
  using assms date_inv_textvariable_set[OF assms]
  by (simp add: write_textvariable_def split: option.splits)

lemma date_inv_on_click:
  assumes "date_inv s"
  shows "date_inv (snd (on_click L rc s))"
proof -
  have nav: "date_inv (snd (if lbl_style (self_calendar s rc) = Day_style Kind_normal Other_month \<or>
        lbl_style (self_calendar s rc) = Day_style Kind_we Other_month
      then (if fst rc = 0 then prev_month s else next_month s) else (None, s)))"
    using assms date_inv_prev_month[OF assms] date_inv_next_month[OF assms] by simp
  have sel: "date_inv (snd (case dy of None \<Rightarrow> (None, s1)
     | Some dn \<Rightarrow>
         (let yr = year (self_date s1); mo = month (self_date s1); s2 = remove_selection s1
          in case date_new yr mo dn of
               Inl e \<Rightarrow> (Some e, s2)
             | Inr d \<Rightarrow>
                 (let s3 = display_selection (s2\<lparr>self_sel_date := Some d\<rparr>);
                      s4 = (case self_textvariable s3 of None \<Rightarrow> s3
                            | Some old \<Rightarrow> textvariable_set L (strftime_x L d) s3)
                  in (None, s4\<lparr>events := events s4 @ [CalendarSelected]\<rparr>)))))"
    if "date_inv s1" for s1 dy
    using that
    by (auto simp add: Let_def date_inv_textvariable_set split: option.splits sum.splits)
  show ?thesis
  proof (cases "self_state s = Normal")
    case True
    show ?thesis
      unfolding on_click_def Let_def if_P[OF True]
      by (rule andthen_preserves[where P = date_inv], rule nav, rule sel[unfolded Let_def])
  next
    case False
    then show ?thesis using assms by (simp add: on_click_def)
  qed
qed

lemma date_inv_user_click:
  assumes "date_inv s"
  shows "date_inv (snd (user_click L rc s))"
  using assms date_inv_on_click[OF assms] by (simp add: user_click_def)

lemma date_inv_selection_set:
  assumes "date_inv s"
  shows "date_inv (snd (selection_set L a s))"
  using assms
  by (auto simp add: selection_set_def Let_def andthen_snd replace_day_1
      date_inv_textvariable_set split: option.splits sum.splits sel_arg.splits)

lemma date_inv_setitem:
  assumes "date_inv s"
  shows "date_inv (snd (setitem_selectmode v s))" "date_inv (snd (setitem_state v s))"
  using assms by (simp_all add: setitem_selectmode_def setitem_state_def)

lemma reachable_date_inv:
  assumes "reachable L s"
  shows "date_inv s"
  using assms
proof (induction rule: reachable.induct)
  case (r_init kw s)
  then show ?case by (simp add: init_Inr_date_inv)
qed (simp_all add: date_inv_next_month date_inv_prev_month date_inv_next_year
    date_inv_prev_year date_inv_user_click date_inv_selection_set
    date_inv_write_textvariable date_inv_setitem)

subsection \<open>Generated events\<close>

lemma events_display_calendar [simp]: "events (snd (display_calendar s)) = events s"
  using display_calendar_same[of s] by (simp add: same_model_def)

lemma events_selection [simp]:
  "events (display_selection s) = events s"
  "events (remove_selection s) = events s"
  using display_selection_same[of s] remove_selection_same[of s]
  by (simp_all add: same_model_def)






lemma events_setitem:
  "events (snd (setitem_selectmode v s)) = events s"
  "events (snd (setitem_state v s)) = events s"
  by (simp_all add: setitem_selectmode_def setitem_state_def)


lemma prevmonth_nextmonth:
  assumes "1 \<le> m" "m \<le> 12"
  shows "prevmonth (fst (nextmonth y m)) (snd (nextmonth y m)) = (y, m)"
  using assms by (simp add: prevmonth_def nextmonth_def)

lemma displayable_nextmonth:
  assumes "1 \<le> y" "1 \<le> m" "m \<le> 12"
    and "displayable (fst (nextmonth y m)) (snd (nextmonth y m))"
  shows "displayable y m"
  using assms by (auto simp add: displayable_def nextmonth_def split: if_splits)

lemma display_calendar_fst:
  assumes "displayable (year (self_date s)) (month (self_date s))"
  shows "fst (display_calendar s) = None"
  using display_calendar_ok[OF assms] by simp

subsection \<open>The example widgets\<close>

lemma c_strftime_example: "c_strftime (mk_date 2020 1 5) = ''01/05/20''"
  by code_simp

lemma displayable_2020_1: "displayable 2020 1"
  by (simp add: displayable_def)

lemma days_in_month_2020_1: "days_in_month 2020 1 = 31"
  by (simp add: month_tables)

lemma init_dates_example:
  "init_dates C_locale (kw_example mode)
    = Inr (Some (mk_date 2020 1 5), Some ''01/05/20'', mk_date 2020 1 1)"
  by (simp add: init_dates_def kw_example_def Let_def date_new_def MINYEAR_def MAXYEAR_def
      days_in_month_2020_1 ebind_def C_locale_def c_strftime_example fits_c_int_small)

lemma init_example:
  "init C_locale (kw_example ''day'') = Inr example_day"
  "init C_locale (kw_example ''none'') = Inr example_none"
  using init_ok[OF init_dates_example[of "''day''"]] init_ok[OF init_dates_example[of "''none''"]]
    displayable_2020_1
  by (simp_all add: kw_example_def example_day_def example_none_def)

lemma init_dates_ym:
  assumes "1 \<le> y" "y \<le> 9999" "1 \<le> m" "m \<le> 12"
  shows "init_dates L (kw_ym y m) = Inr (None, None, mk_date y m 1)"
  using date_new_first[OF assms] by (simp add: init_dates_def kw_ym_def Let_def ebind_def)

lemma init_ym:
  assumes "displayable y m"
  shows "init L (kw_ym y m) = Inr (constructed None (mk_date y m 1) None Mode_day Normal)"
proof -
  from assms have v: "1 \<le> y" "y \<le> 9999" "1 \<le> m" "m \<le> 12" by (simp_all add: displayable_def)
  show ?thesis
    using init_ok[OF init_dates_ym[OF v, of L]] assms by (simp add: kw_ym_def)
qed

lemma init_dates_ymd:
  assumes "1 \<le> y" "y \<le> 9999" "1 \<le> m" "m \<le> 12" "1 \<le> d" "d \<le> days_in_month y m"
  shows "init_dates L (kw_ymd y m d) = Inr (Some (mk_date y m d), None, mk_date y m 1)"
  using date_new_first[OF assms(1-4)] date_new_ok[OF assms]
  by (simp add: init_dates_def kw_ymd_def Let_def ebind_def)

lemma init_ymd:
  assumes "displayable y m" "1 \<le> d" "d \<le> days_in_month y m"
  shows "init L (kw_ymd y m d)
    = Inr (constructed (Some (mk_date y m d)) (mk_date y m 1) None Mode_day Normal)"
proof -
  from assms have v: "1 \<le> y" "y \<le> 9999" "1 \<le> m" "m \<le> 12" by (simp_all add: displayable_def)
  show ?thesis
    using init_ok[OF init_dates_ymd[OF v assms(2,3), of L]] assms by (simp add: kw_ymd_def)
qed

lemma kw_today_valid [simp]:
  "date_valid (kw_today (kw_ym y m))" "date_valid (kw_today (kw_ymd y m d))"
  "date_valid (kw_today (kw_example mode))"
  by (simp_all add: kw_ym_def kw_ymd_def kw_example_def date_valid_mk_date month_tables is_leap_def)

lemma reachable_examples:
  "reachable C_locale example_day" "reachable C_locale example_none"
  by (rule r_init[OF kw_today_valid(3) init_example(1)])
     (rule r_init[OF kw_today_valid(3) init_example(2)])

lemma reachable_ym:
  assumes "displayable y m"
  shows "reachable L (constructed None (mk_date y m 1) None Mode_day Normal)"
  by (rule r_init[OF kw_today_valid(1) init_ym[OF assms]])

lemma reachable_ymd:
  assumes "displayable y m" "1 \<le> d" "d \<le> days_in_month y m"
  shows "reachable L (constructed (Some (mk_date y m d)) (mk_date y m 1) None Mode_day Normal)"
  by (rule r_init[OF kw_today_valid(2) init_ymd[OF assms]])

subsection \<open>Option values\<close>

text \<open>
  A string that is equal to an option literal without being it, such as
  \<^verbatim>\<open>"".join(["d", "ay"])\<close>: \<^verbatim>\<open>__setitem__\<close> refuses it as
  \<^verbatim>\<open>selectmode\<close>; the constructor accepts it and leaves the day labels unbound; as
  \<^verbatim>\<open>state\<close> it is stored and the widget then takes neither a click nor a
  \<^verbatim>\<open>selection_set\<close>.
\<close>

lemma setitem_selectmode_equal:
  "setitem_selectmode \<lparr>chars = ''day'', interned = False\<rparr> s = (Some ValueError, s)"
  by (simp add: setitem_selectmode_def py_is_def)

lemma setitem_state_equal:
  "setitem_state \<lparr>chars = ''normal'', interned = False\<rparr> s
    = (None, s\<lparr>self_state := Disabled\<rparr>)"
  by (simp add: setitem_state_def py_is_def py_eq_def)

lemma init_selectmode_equal:
  "init L ((kw_ym 2020 1)\<lparr>kw_selectmode := Some \<lparr>chars = ''day'', interned = False\<rparr>\<rparr>)
    = Inr (constructed None (mk_date 2020 1 1) None Mode_none Normal)"
proof -
  let ?kw = "(kw_ym 2020 1)\<lparr>kw_selectmode := Some \<lparr>chars = ''day'', interned = False\<rparr>\<rparr>"
  have "init_dates L ?kw = Inr (None, None, mk_date 2020 1 1)"
    using init_dates_ym[of 2020 1 L] by (simp add: init_dates_def kw_ym_def)
  from init_ok[OF this] show ?thesis
    by (simp add: kw_ym_def py_eq_def py_is_def displayable_def)
qed

text \<open>
  \<^verbatim>\<open>borderwidth="abc"\<close> and \<^verbatim>\<open>borderwidth=-1\<close>: the constructor raises, in
  the first case before it looks at the date.
\<close>

lemma init_borderwidth_invalid:
  "init L (kw\<lparr>kw_borderwidth := Some (Inl ValueError)\<rparr>) = Inl ValueError"
  by (simp add: init_def init_borderwidth_def ebind_def Let_def)

lemma init_borderwidth_negative:
  "init L ((kw_ym 2020 1)\<lparr>kw_borderwidth := Some (Inr (- 1))\<rparr>) = Inl TclError"
proof -
  let ?kw = "(kw_ym 2020 1)\<lparr>kw_borderwidth := Some (Inr (- 1))\<rparr>"
  have "init_dates L ?kw = Inr (None, None, mk_date 2020 1 1)"
    using init_dates_ym[of 2020 1 L] by (simp add: init_dates_def kw_ym_def)
  then show ?thesis
    by (simp add: init_def init_borderwidth_def pack_pad_def ebind_def Let_def kw_ym_def)
qed

subsection \<open>What the labels show\<close>

lemma display_selection_eq:
  "display_selection s =
     (case selection_cell s of None \<Rightarrow> s | Some rc \<Rightarrow> configure_style (fst rc) (snd rc) Sel s)"
  by (simp add: display_selection_def selection_cell_def Let_def case_prod_beta
      split: option.splits)

lemma selection_cell_cong:
  assumes "self_sel_date s' = self_sel_date s" "self_date s' = self_date s"
  shows "selection_cell s' = selection_cell s"
  by (simp only: selection_cell_def assms)

lemma selection_cell_range:
  assumes "selection_cell s = Some rc"
  shows "fst rc < 6" "snd rc < 7"
proof -
  from assms obtain sd where sd: "self_sel_date s = Some sd"
    by (auto simp add: selection_cell_def split: option.splits)
  have wd: "snd (snd (isocalendar sd)) - 1 < 7"
    by (auto simp add: isocalendar_def Let_def)
  from assms sd show "fst rc < 6" "snd rc < 7"
    using wd by (auto simp add: selection_cell_def Let_def split: if_splits)
qed

lemma display_selection_style:
  "lbl_style (self_calendar (display_selection s) rc) =
     (if selection_cell s = Some rc then Sel else lbl_style (self_calendar s rc))"
  by (auto simp add: display_selection_eq configure_style_def split: option.splits)


lemma shown_style:
  assumes "r < 6" "c < 7"
  shows "lbl_style (self_calendar (shown s) (r, c)) =
    Day_style (week_days c)
      (if month (cell (year (self_date s)) (month (self_date s)) (7 * r + c)) = month (self_date s)
       then This_month else Other_month)"
  using assms by (simp add: shown_def shown_label_def grid_nth)


lemma week_nbs_display_selection [simp]:
  "self_week_nbs (display_selection s) = self_week_nbs s"
  by (simp add: display_selection_eq configure_style_def split: option.splits)

lemma constructed_week_nbs:
  assumes "i < 6"
  shows "self_week_nbs (constructed sel d tv mode st) i
    = Some (week_label (fst (snd (isocalendar d))) i)"
  using assms by (simp add: constructed_def shown_def)






lemma display_calendar_state:
  assumes "displayable (year (self_date s)) (month (self_date s))"
  shows "snd (display_calendar s) = display_selection (shown s)"
  using display_calendar_ok[OF assms] by simp

lemma shown_fields [simp]:
  "self_sel_date (shown s) = self_sel_date s" "self_date (shown s) = self_date s"
  by (simp_all add: shown_def)

lemma displayed_style:
  assumes "displayable (year (self_date s)) (month (self_date s))" "r < 6" "c < 7"
  shows "lbl_style (self_calendar (snd (display_calendar s)) (r, c)) =
    (if selection_cell s = Some (r, c) then Sel
     else Day_style (week_days c)
       (if month (cell (year (self_date s)) (month (self_date s)) (7 * r + c)) = month (self_date s)
        then This_month else Other_month))"
proof -
  have "selection_cell (shown s) = selection_cell s"
    by (rule selection_cell_cong) simp_all
  then show ?thesis
    using assms(2,3)
    by (simp add: display_calendar_state[OF assms(1)] display_selection_style shown_style)
qed

lemma displayed_text:
  assumes "displayable (year (self_date s)) (month (self_date s))" "r < 6" "c < 7"
  shows "lbl_text (self_calendar (snd (display_calendar s)) (r, c))
    = Some (day (cell (year (self_date s)) (month (self_date s)) (7 * r + c)))"
  using assms(2,3)
  by (simp add: display_calendar_state[OF assms(1)] display_selection_text shown_text grid_nth)

lemma self_sel_date_display_calendar [simp]:
  "self_sel_date (snd (display_calendar s)) = self_sel_date s"
  using display_calendar_same[of s] by (simp add: same_model_def)

lemma iso_2022_12_31: "isocalendar (mk_date 2022 12 31) = (2022, 52, 6)"
  by code_simp

lemma iso_2022_1_1: "isocalendar (mk_date 2022 1 1) = (2021, 52, 6)"
  by code_simp

lemma cell_2022_1_5: "cell 2022 1 5 = mk_date 2022 1 1"
  by code_simp

lemma january_2022_eq:
  "january_2022 = snd (display_calendar
     ((snd (next_month december_2022))\<lparr>self_date := mk_date 2022 1 1\<rparr>))"
  and january_2022_sel: "self_sel_date (snd (next_month december_2022)) = Some (mk_date 2022 12 31)"
proof -
  have inv0: "date_inv december_2022"
    by (simp add: december_2022_def date_inv_def date_valid_mk_date month_tables)
  have nm: "next_month december_2022
      = display_calendar (december_2022\<lparr>self_date := mk_date 2023 1 1\<rparr>)"
    by (simp add: next_month_eq[OF inv0]) (simp add: december_2022_def nextmonth_def)
  have d1: "self_date (snd (next_month december_2022)) = mk_date 2023 1 1"
    unfolding nm by simp
  show "self_sel_date (snd (next_month december_2022)) = Some (mk_date 2022 12 31)"
    unfolding nm by (simp add: december_2022_def)
  have inv1: "date_inv (snd (next_month december_2022))" using inv0 by (rule date_inv_next_month)
  show "january_2022 = snd (display_calendar
     ((snd (next_month december_2022))\<lparr>self_date := mk_date 2022 1 1\<rparr>))"
    unfolding january_2022_def by (simp add: prev_year_eq[OF inv1] d1)
qed

lemma displayed_week_nbs:
  assumes "displayable (year (self_date s)) (month (self_date s))" "i < 6"
  shows "self_week_nbs (snd (display_calendar s)) i
    = Some ((fst (snd (isocalendar (self_date s))) + int i - 1)
              mod max (fst (snd (isocalendar (self_date s)))) 52 + 1)"
  using assms(2)
  by (simp add: display_calendar_state[OF assms(1)] shown_def week_label_def)

lemma week_label_step:
  "week_label wn (Suc i) = week_label wn i + 1 \<or>
   (week_label wn i = max wn 52 \<and> week_label wn (Suc i) = 1)"
proof -
  define M where "M = max wn 52"
  define x where "x = wn + int i - 1"
  have M: "0 < M" by (simp add: M_def)
  have r: "0 \<le> x mod M" "x mod M < M" using M by simp_all
  have s: "(x + 1) mod M = (if x mod M = M - 1 then 0 else x mod M + 1)"
  proof (cases "x mod M = M - 1")
    case True
    have "x + 1 = M * (x div M + 1) + 0" using True
      by (metis add.commute add.right_neutral diff_add_cancel distrib_left mult.right_neutral mult_div_mod_eq add.assoc)
    then have "(x + 1) mod M = 0" by (metis add.right_neutral mod_mult_self4 mod_0 mod_mult_self1_is_0)
    then show ?thesis using True by simp
  next
    case False
    then have "x mod M + 1 < M" using r by linarith
    then have "(x mod M + 1) mod M = x mod M + 1" using r by simp
    then show ?thesis using False by (metis mod_add_left_eq)
  qed
  have a: "week_label wn i = x mod M + 1" by (simp add: week_label_def M_def x_def)
  have b: "week_label wn (Suc i) = (x + 1) mod M + 1"
    by (simp add: week_label_def M_def x_def algebra_simps)
  show ?thesis unfolding a b s M_def[symmetric] by auto
qed

lemma week_label_one_wrap:
  assumes "week_label wn (Suc i) = 1" "week_label wn (Suc j) = 1" "i < 6" "j < 6"
  shows "i = j"
proof -
  define M where "M = max wn 52"
  have M: "52 \<le> M" by (simp add: M_def)
  have "(wn + int i) mod M = 0" "(wn + int j) mod M = 0"
    using assms(1,2) by (simp_all add: week_label_def M_def algebra_simps)
  then have "M dvd (wn + int i)" "M dvd (wn + int j)" by (simp_all add: dvd_eq_mod_eq_0)
  then have "M dvd ((wn + int i) - (wn + int j))" by (rule dvd_diff)
  then have d: "M dvd (int i - int j)" by simp
  have "\<bar>int i - int j\<bar> < M" using assms(3,4) M by linarith
  have "int i - int j = 0"
  proof (rule ccontr)
    assume "int i - int j \<noteq> 0"
    then have "\<bar>M\<bar> \<le> \<bar>int i - int j\<bar>" using d by (rule dvd_imp_le_int)
    then show False using \<open>\<bar>int i - int j\<bar> < M\<close> by linarith
  qed
  then show ?thesis by simp
qed

lemma iso_2020_12_1: "isocalendar (mk_date 2020 12 1) = (2020, 49, 2)"
  by code_simp

lemma iso_2020_12_28: "isocalendar (mk_date 2020 12 28) = (2020, 53, 1)"
  by code_simp

lemma cell_2020_12_28: "cell 2020 12 28 = mk_date 2020 12 28"
  by code_simp

section \<open>The claims\<close>

subsection \<open>C1: the displayed grid\<close>

text \<open>
  C1 (as amended: for the months from 0001-01 to 9999-10).  \<^verbatim>\<open>_display_calendar\<close>
  raises nothing; the dates it lays out are six rows of seven valid dates whose ordinals
  run consecutively from the Monday on or before the first of the month; every day label
  shows the day number of its date; row 0, column 0 is a Monday; and every day of the
  displayed month is the date of exactly one cell.
\<close>

theorem display_calendar_grid:
  assumes "displayable (year (self_date s)) (month (self_date s))"
  shows "\<exists>cal s'.
    display_dates (year (self_date s)) (month (self_date s)) = Inr cal \<and>
    display_calendar s = (None, s') \<and>
    length cal = 6 \<and> (\<forall>r<6. length (cal ! r) = 7) \<and>
    (\<forall>r<6. \<forall>c<7.
       date_valid (cal ! r ! c) \<and>
       toordinal (cal ! r ! c) =
         ymd2ord (year (self_date s)) (month (self_date s)) 1
           - (ymd2ord (year (self_date s)) (month (self_date s)) 1 + 6) mod 7
           + 7 * int r + int c \<and>
       lbl_text (self_calendar s' (r, c)) = Some (day (cal ! r ! c))) \<and>
    date_weekday (cal ! 0 ! 0) = 0 \<and>
    (\<forall>d. 1 \<le> d \<and> d \<le> days_in_month (year (self_date s)) (month (self_date s)) \<longrightarrow>
       (\<exists>!rc. fst rc < 6 \<and> snd rc < 7 \<and>
          cal ! fst rc ! snd rc = mk_date (year (self_date s)) (month (self_date s)) d))"
proof -
  let ?y = "year (self_date s)"
  let ?m = "month (self_date s)"
  from assms have m: "1 \<le> ?m" "?m \<le> 12" by (simp_all add: displayable_def)
  have 1: "display_dates ?y ?m = Inr (grid ?y ?m)" using assms by (rule display_dates_ok)
  have 2: "display_calendar s = (None, display_selection (shown s))"
    using assms by (rule display_calendar_ok)
  have 3: "date_valid (grid ?y ?m ! r ! c) \<and>
       toordinal (grid ?y ?m ! r ! c) =
         ymd2ord ?y ?m 1 - (ymd2ord ?y ?m 1 + 6) mod 7 + 7 * int r + int c \<and>
       lbl_text (self_calendar (display_selection (shown s)) (r, c))
         = Some (day (grid ?y ?m ! r ! c))" if "r < 6" "c < 7" for r c
  proof -
    have "7 * r + c < 42" using that by simp
    then have "date_valid (cell ?y ?m (7 * r + c))" using assms by (intro date_valid_cell)
    then show ?thesis
      using that toordinal_cell[OF m, of ?y "7 * r + c"]
      by (simp add: grid_nth display_selection_text shown_text first_weekday_def)
  qed
  have 4: "date_weekday (grid ?y ?m ! 0 ! 0) = 0"
    using weekday_cell_0[OF m, of ?y] by (simp add: grid_nth)
  have 5: "\<exists>!rc. fst rc < 6 \<and> snd rc < 7 \<and> grid ?y ?m ! fst rc ! snd rc = mk_date ?y ?m d"
    if "1 \<le> d \<and> d \<le> days_in_month ?y ?m" for d
    using m that by (intro cell_of_day) simp_all
  show ?thesis
    using 1 2 3 4 5 by (intro exI[of _ "grid ?y ?m"] exI[of _ "display_selection (shown s)"]) simp
qed

text \<open>
  The theorem at February 2024: the grid starts on Monday 29 January, its cell in row 4,
  column 3 is 29 February and shows 29, and the next cell is 1 March.
\<close>

theorem display_calendar_grid_witness:
  "displayable 2024 2 \<and>
   (\<exists>cal s'.
      display_dates 2024 2 = Inr cal \<and>
      display_calendar (blank (mk_date 2024 2 1)) = (None, s') \<and>
      cal ! 0 ! 0 = mk_date 2024 1 29 \<and> cal ! 4 ! 3 = mk_date 2024 2 29 \<and>
      cal ! 4 ! 4 = mk_date 2024 3 1 \<and>
      lbl_text (self_calendar s' (4, 3)) = Some 29)"
proof -
  have d: "displayable 2024 2" by (simp add: displayable_def)
  then have d': "displayable (year (self_date (blank (mk_date 2024 2 1))))
      (month (self_date (blank (mk_date 2024 2 1))))"
    by (simp add: blank_def unshown_def)
  from display_calendar_grid[OF d'] obtain cal s' where
    f1: "display_dates 2024 2 = Inr cal"
    and f2: "display_calendar (blank (mk_date 2024 2 1)) = (None, s')"
    and f3: "\<forall>r<6. \<forall>c<7. lbl_text (self_calendar s' (r, c)) = Some (day (cal ! r ! c))"
    by (auto simp add: blank_def unshown_def)
  have g: "cal = grid 2024 2" using f1 display_dates_ok[OF d] by simp
  have c00: "cal ! 0 ! 0 = mk_date 2024 1 29" unfolding g by code_simp
  have c43: "cal ! 4 ! 3 = mk_date 2024 2 29" unfolding g by code_simp
  have c44: "cal ! 4 ! 4 = mk_date 2024 3 1" unfolding g by code_simp
  have "lbl_text (self_calendar s' (4, 3)) = Some 29" using f3 c43 by simp
  then show ?thesis using d f1 f2 c00 c43 c44 by blast
qed

text \<open>
  C1 as stated fails for December 9999: the grid would need dates of the year 10000, the
  calendar module raises \<^verbatim>\<open>ValueError\<close> and nothing is displayed.
\<close>

theorem display_calendar_last_month:
  "display_calendar (blank (mk_date 9999 12 1)) = (Some ValueError, blank (mk_date 9999 12 1))"
  by (simp add: display_calendar_def blank_def unshown_def display_dates_last)

subsection \<open>C2: the highlighted cell\<close>

text \<open>
  C2 fails on the code.  \<^verbatim>\<open>Calendar(year=2022, month=12, day=31)\<close>, then the
  next-month and the previous-year arrow: the widget displays January 2022, the selection is
  still 31 December 2022, of the same year, and the row offset is (52 - 52) mod 52 = 0.
  \<^verbatim>\<open>_display_selection\<close> gives the selection style to the label in row 0, column 5,
  which shows 1 and holds 1 January 2022, not the selected date.
\<close>

theorem display_selection_wrong_cell:
  "init C_locale (kw_ymd 2022 12 31) = Inr december_2022 \<and>
   self_date january_2022 = mk_date 2022 1 1 \<and>
   self_sel_date january_2022 = Some (mk_date 2022 12 31) \<and>
   lbl_style (self_calendar january_2022 (0, 5)) = Sel \<and>
   lbl_text (self_calendar january_2022 (0, 5)) = Some 1 \<and>
   display_dates 2022 1 = Inr (grid 2022 1) \<and>
   grid 2022 1 ! 0 ! 5 = mk_date 2022 1 1"
proof -
  let ?s = "(snd (next_month december_2022))\<lparr>self_date := mk_date 2022 1 1\<rparr>"
  have d: "displayable 2022 1" "displayable 2022 12" by (simp_all add: displayable_def)
  have i: "init C_locale (kw_ymd 2022 12 31) = Inr december_2022"
    unfolding december_2022_def by (rule init_ymd[OF d(2)]) (simp_all add: month_tables)
  have ds: "displayable (year (self_date ?s)) (month (self_date ?s))" using d(1) by simp
  have sc: "selection_cell ?s = Some (0, 5)"
    by (simp add: selection_cell_def january_2022_sel iso_2022_12_31 iso_2022_1_1 Let_def)
  have 1: "self_date january_2022 = mk_date 2022 1 1" by (simp add: january_2022_eq)
  have 2: "self_sel_date january_2022 = Some (mk_date 2022 12 31)"
    by (simp add: january_2022_eq january_2022_sel)
  have 3: "lbl_style (self_calendar january_2022 (0, 5)) = Sel"
    unfolding january_2022_eq using displayed_style[OF ds, of 0 5] sc by simp
  have 4: "lbl_text (self_calendar january_2022 (0, 5)) = Some 1"
    unfolding january_2022_eq using displayed_text[OF ds, of 0 5] by (simp add: cell_2022_1_5)
  have 5: "display_dates 2022 1 = Inr (grid 2022 1)" using d(1) by (rule display_dates_ok)
  have 6: "grid 2022 1 ! 0 ! 5 = mk_date 2022 1 1" by (simp add: grid_nth cell_2022_1_5)
  show ?thesis using i 1 2 3 4 5 6 by simp
qed

text \<open>
  The parts of C2 that hold: without a selection, with a selection of another year, or
  with a row offset outside 0..5, \<^verbatim>\<open>_display_selection\<close> changes no label; otherwise
  it changes the style of the one label in the computed row and column.
\<close>

lemma display_selection_none:
  assumes "self_sel_date s = None \<or>
    (\<exists>sd. self_sel_date s = Some sd \<and>
       (year sd \<noteq> year (self_date s) \<or>
        \<not> (fst (snd (isocalendar sd)) - fst (snd (isocalendar (self_date s))))
             mod max 52 (fst (snd (isocalendar (self_date s)))) < 6))"
  shows "display_selection s = s"
  using assms
  by (auto simp add: display_selection_eq selection_cell_def Let_def split: option.splits)

lemma display_selection_some:
  assumes "self_sel_date s = Some sd" "year sd = year (self_date s)"
    and "(fst (snd (isocalendar sd)) - fst (snd (isocalendar (self_date s))))
             mod max 52 (fst (snd (isocalendar (self_date s)))) = w" "w < 6"
  shows "display_selection s = configure_style (nat w) (nat (snd (snd (isocalendar sd)) - 1)) Sel s"
proof -
  have "0 \<le> w" using assms(3) by (metis max.strict_coboundedI1 pos_mod_sign zero_less_numeral)
  then show ?thesis
    using assms by (simp add: display_selection_eq selection_cell_def Let_def)
qed

subsection \<open>C3: the week numbers\<close>

text \<open>
  C3 fails on the code.  \<^verbatim>\<open>Calendar(year=2020, month=12)\<close>: 1 December 2020 is in
  ISO week 49, so the labels are computed modulo 52 and read 49, 50, 51, 52, 1, 2.  Row 4
  starts on Monday 28 December 2020, which is in ISO week 53 of 2020: the wraparound comes
  one row early in a year of 53 weeks.
\<close>

theorem week_numbers_53_week_year:
  "init C_locale (kw_ym 2020 12) = Inr december_2020 \<and>
   map (self_week_nbs december_2020) [0, 1, 2, 3, 4, 5]
     = [Some 49, Some 50, Some 51, Some 52, Some 1, Some 2] \<and>
   display_dates 2020 12 = Inr (grid 2020 12) \<and>
   grid 2020 12 ! 4 ! 0 = mk_date 2020 12 28 \<and>
   isocalendar (mk_date 2020 12 28) = (2020, 53, 1)"
proof -
  have d: "displayable 2020 12" by (simp add: displayable_def)
  have i: "init C_locale (kw_ym 2020 12) = Inr december_2020"
    unfolding december_2020_def using d by (rule init_ym)
  have w: "self_week_nbs december_2020 k = Some (week_label 49 k)" if "k < 6" for k
    unfolding december_2020_def using that by (simp add: constructed_week_nbs iso_2020_12_1)
  have 1: "map (self_week_nbs december_2020) [0, 1, 2, 3, 4, 5]
     = [Some 49, Some 50, Some 51, Some 52, Some 1, Some 2]"
    by (simp add: w week_label_def)
  have 2: "display_dates 2020 12 = Inr (grid 2020 12)" using d by (rule display_dates_ok)
  have 3: "grid 2020 12 ! 4 ! 0 = mk_date 2020 12 28" by (simp add: grid_nth cell_2020_12_28)
  show ?thesis using i 1 2 3 iso_2020_12_28 by simp
qed

text \<open>
  The parts of C3 that hold: the label of row \<open>i\<close> is ((W + i - 1) mod max(W, 52)) + 1
  for the ISO week W of the first day of the displayed month (\<open>displayed_week_nbs\<close>),
  each label is its predecessor plus 1 or wraps from max(W, 52) to 1
  (\<open>week_label_step\<close>), and at most one of the six rows starts again at 1
  (\<open>week_label_one_wrap\<close>).
\<close>

lemma week_labels_formula:
  assumes "displayable (year (self_date s)) (month (self_date s))" "i < 6"
  shows "self_week_nbs (snd (display_calendar s)) i
    = Some (week_label (fst (snd (isocalendar (self_date s)))) i)"
  using displayed_week_nbs[OF assms] by (simp add: week_label_def)

subsection \<open>C4: an unparseable text in the bound variable\<close>

text \<open>
  C4 (as amended: when \<^verbatim>\<open>selectmode\<close> is \<^verbatim>\<open>"day"\<close>).  For a non-empty text
  of the bound variable that does not parse as a date, \<^verbatim>\<open>_textvariable_trace\<close>
  raises the invalid-date error made from that text, and the state it leaves differs from
  the one it found in the text only, which is the formatted previous selection, or empty if
  there was none.
\<close>

theorem trace_invalid_text:
  assumes "self_selectmode s = Mode_day" "self_textvariable s = Some txt" "txt \<noteq> []"
    "py_strptime L txt = Inl e"
  shows "textvariable_trace L s =
    (Some (InvalidDate txt),
     s\<lparr>self_textvariable :=
         Some (case self_sel_date s of None \<Rightarrow> [] | Some sd \<Rightarrow> strftime_x L sd)\<rparr>)"
  using assms by (simp add: textvariable_trace_def split: option.splits)

text \<open>
  The theorem at the example widget after \<^verbatim>\<open>var.set("tomorrow")\<close>: the error names
  the text and the widget is back in the state it had before the write.
\<close>

theorem trace_invalid_text_witness:
  "self_selectmode (example_day\<lparr>self_textvariable := Some ''tomorrow''\<rparr>) = Mode_day \<and>
   py_strptime C_locale ''tomorrow'' = Inl ValueError \<and>
   textvariable_trace C_locale (example_day\<lparr>self_textvariable := Some ''tomorrow''\<rparr>)
     = (Some (InvalidDate ''tomorrow''), example_day)"
proof -
  let ?s = "example_day\<lparr>self_textvariable := Some ''tomorrow''\<rparr>"
  have 1: "self_selectmode ?s = Mode_day" by (simp add: example_day_def)
  have 2: "self_textvariable ?s = Some ''tomorrow''" by simp
  have 3: "''tomorrow'' \<noteq> []" by simp
  have "c_strptime ''tomorrow'' = None" by code_simp
  then have 4: "py_strptime C_locale ''tomorrow'' = Inl ValueError"
    by (simp add: py_strptime_def C_locale_def)
  have 5: "self_sel_date ?s = Some (mk_date 2020 1 5)" by (simp add: example_day_def)
  have 6: "self_textvariable example_day = Some ''01/05/20''" by (simp add: example_day_def)
  have "?s\<lparr>self_textvariable := Some ''01/05/20''\<rparr> = example_day"
    using 6 by (simp add: widget.equality)
  then show ?thesis
    using 1 4 trace_invalid_text[OF 1 2 3 4]
    by (simp add: 5 C_locale_def c_strftime_example)
qed

text \<open>
  C4 as stated fails when \<^verbatim>\<open>selectmode\<close> is \<^verbatim>\<open>"none"\<close>: the trace returns at
  once, raises nothing and leaves the unparseable text in the variable.
\<close>

theorem trace_mode_none:
  "py_strptime C_locale ''tomorrow'' = Inl ValueError \<and>
   textvariable_trace C_locale (example_none\<lparr>self_textvariable := Some ''tomorrow''\<rparr>)
     = (None, example_none\<lparr>self_textvariable := Some ''tomorrow''\<rparr>)"
proof -
  have "c_strptime ''tomorrow'' = None" by code_simp
  then have "py_strptime C_locale ''tomorrow'' = Inl ValueError"
    by (simp add: py_strptime_def C_locale_def)
  then show ?thesis by (simp add: textvariable_trace_def example_none_def)
qed

subsection \<open>C5: next month, then previous month\<close>

text \<open>
  C5 (as amended: for every displayed month but 9999-12).  \<^verbatim>\<open>_next_month\<close>
  sets the displayed month to the first of the following month, and \<^verbatim>\<open>_prev_month\<close>
  after it sets it back to the original value.  Neither call raises when the following month
  can be displayed, that is up to 9999-09.
\<close>

theorem next_prev_month:
  assumes "date_valid (self_date s)" "day (self_date s) = 1"
    and "\<not> (year (self_date s) = 9999 \<and> month (self_date s) = 12)"
  shows "self_date (snd (next_month s)) =
      mk_date (fst (nextmonth (year (self_date s)) (month (self_date s))))
              (snd (nextmonth (year (self_date s)) (month (self_date s)))) 1 \<and>
    self_date (snd (prev_month (snd (next_month s)))) = self_date s \<and>
    (displayable (fst (nextmonth (year (self_date s)) (month (self_date s))))
                 (snd (nextmonth (year (self_date s)) (month (self_date s)))) \<longrightarrow>
       fst (next_month s) = None \<and> fst (prev_month (snd (next_month s))) = None)"
proof -
  let ?y = "year (self_date s)" and ?m = "month (self_date s)"
  let ?ny = "fst (nextmonth ?y ?m)" and ?nm = "snd (nextmonth ?y ?m)"
  let ?s1 = "snd (next_month s)"
  have inv: "date_inv s" using assms(1,2) by (simp add: date_inv_def)
  note d = date_invD[OF inv]
  have nm: "next_month s = display_calendar (s\<lparr>self_date := mk_date ?ny ?nm 1\<rparr>)"
    using next_month_eq[OF inv] assms(3) by simp
  then have d1: "self_date ?s1 = mk_date ?ny ?nm 1" by simp
  have inv1: "date_inv ?s1" using inv by (rule date_inv_next_month)
  have ne: "\<not> (?ny = 1 \<and> ?nm = 1)" using d(1,3) by (auto simp add: nextmonth_def)
  have pm: "prev_month ?s1 = display_calendar (?s1\<lparr>self_date := mk_date ?y ?m 1\<rparr>)"
    using prev_month_eq[OF inv1] ne by (simp add: d1 prevmonth_nextmonth[OF d(3,4)])
  then have d2: "self_date (snd (prev_month ?s1)) = self_date s" using d(5) by simp
  have ok: "fst (next_month s) = None \<and> fst (prev_month ?s1) = None"
    if disp: "displayable ?ny ?nm"
  proof -
    have "fst (next_month s) = None"
      unfolding nm by (rule display_calendar_fst) (use disp in simp)
    moreover have "displayable ?y ?m" using d(1,3,4) disp by (rule displayable_nextmonth)
    then have "fst (prev_month ?s1) = None"
      unfolding pm by (intro display_calendar_fst) simp
    ultimately show ?thesis by simp
  qed
  show ?thesis using d1 d2 ok by blast
qed

text \<open>
  The theorem at \<^verbatim>\<open>Calendar(year=2024, month=12)\<close>: next month yields 2025-01,
  previous month then restores 2024-12, and neither raises.
\<close>

theorem next_prev_month_witness:
  "date_valid (self_date (constructed None (mk_date 2024 12 1) None Mode_day Normal)) \<and>
   self_date (snd (next_month (constructed None (mk_date 2024 12 1) None Mode_day Normal)))
     = mk_date 2025 1 1 \<and>
   self_date (snd (prev_month (snd (next_month
       (constructed None (mk_date 2024 12 1) None Mode_day Normal)))))
     = mk_date 2024 12 1 \<and>
   fst (next_month (constructed None (mk_date 2024 12 1) None Mode_day Normal)) = None \<and>
   fst (prev_month (snd (next_month
       (constructed None (mk_date 2024 12 1) None Mode_day Normal)))) = None"
proof -
  let ?s = "constructed None (mk_date 2024 12 1) None Mode_day Normal"
  have 1: "date_valid (self_date ?s)" by (simp add: date_valid_mk_date month_tables)
  have 2: "day (self_date ?s) = 1" by simp
  have 3: "\<not> (year (self_date ?s) = 9999 \<and> month (self_date ?s) = 12)" by simp
  have 4: "displayable 2025 1" by (simp add: displayable_def)
  show ?thesis
    using 1 4 next_prev_month[OF 1 2 3] by (simp add: nextmonth_def)
qed

text \<open>
  C5 as stated fails at 9999-12, a displayed month reached from
  \<^verbatim>\<open>Calendar(year=9999, month=10)\<close> by two calls of \<^verbatim>\<open>_next_month\<close>: a third
  call raises \<^verbatim>\<open>OverflowError\<close> and leaves the month, so \<^verbatim>\<open>_prev_month\<close>
  after it ends at 9999-11.
\<close>

theorem next_prev_month_last:
  "init C_locale (kw_ym 9999 10)
     = Inr (constructed None (mk_date 9999 10 1) None Mode_day Normal) \<and>
   self_date (snd (next_month (snd (next_month
       (constructed None (mk_date 9999 10 1) None Mode_day Normal))))) = mk_date 9999 12 1 \<and>
   fst (next_month (snd (next_month (snd (next_month
       (constructed None (mk_date 9999 10 1) None Mode_day Normal)))))) = Some OverflowError \<and>
   self_date (snd (prev_month (snd (next_month (snd (next_month (snd (next_month
       (constructed None (mk_date 9999 10 1) None Mode_day Normal)))))))))
     = mk_date 9999 11 1"
proof -
  let ?s0 = "constructed None (mk_date 9999 10 1) None Mode_day Normal"
  let ?s1 = "snd (next_month ?s0)"
  let ?s2 = "snd (next_month ?s1)"
  have i: "init C_locale (kw_ym 9999 10) = Inr ?s0"
    by (rule init_ym) (simp add: displayable_def)
  have inv0: "date_inv ?s0" by (simp add: date_inv_def date_valid_mk_date month_tables)
  have inv1: "date_inv ?s1" using inv0 by (rule date_inv_next_month)
  have inv2: "date_inv ?s2" using inv1 by (rule date_inv_next_month)
  have d1: "self_date ?s1 = mk_date 9999 11 1"
    by (simp add: next_month_eq[OF inv0] nextmonth_def)
  have d2: "self_date ?s2 = mk_date 9999 12 1"
    by (simp add: next_month_eq[OF inv1] d1 nextmonth_def)
  have n3: "next_month ?s2 = (Some OverflowError, ?s2)"
    by (simp add: next_month_eq[OF inv2] d2)
  have "self_date (snd (prev_month ?s2)) = mk_date 9999 11 1"
    by (simp add: prev_month_eq[OF inv2] d2 prevmonth_def)
  then show ?thesis using i d2 n3 by simp
qed

subsection \<open>C6: the accessors when \<^verbatim>\<open>selectmode\<close> is \<^verbatim>\<open>"none"\<close>\<close>

text \<open>
  C6 (as amended).  When \<^verbatim>\<open>selectmode\<close> is \<^verbatim>\<open>"none"\<close>,
  \<^verbatim>\<open>selection_get\<close> returns \<^verbatim>\<open>None\<close> whatever selection is stored;
  \<^verbatim>\<open>get_date\<close> does not look at the mode: it returns the empty string when no
  selection is stored and the formatted stored selection otherwise.
\<close>

theorem accessors_mode_none:
  assumes "self_selectmode s = Mode_none"
  shows "selection_get s = None \<and>
    (self_sel_date s = None \<longrightarrow> get_date L s = []) \<and>
    (\<forall>d. self_sel_date s = Some d \<longrightarrow> get_date L s = strftime_x L d)"
  using assms by (simp add: selection_get_def get_date_def)

text \<open>The theorem at the example widget with \<^verbatim>\<open>selectmode="none"\<close>.\<close>

theorem accessors_mode_none_witness:
  "self_selectmode example_none = Mode_none \<and>
   selection_get example_none = None \<and>
   self_sel_date example_none = Some (mk_date 2020 1 5) \<and>
   get_date C_locale example_none = strftime_x C_locale (mk_date 2020 1 5)"
proof -
  have h: "self_selectmode example_none = Mode_none" by (simp add: example_none_def)
  have d: "self_sel_date example_none = Some (mk_date 2020 1 5)" by (simp add: example_none_def)
  show ?thesis using h d accessors_mode_none[OF h, of C_locale] by simp
qed

text \<open>
  C6 as stated fails: \<^verbatim>\<open>Calendar(year=2020, month=1, day=5, selectmode="none")\<close>
  stores the selection, and \<^verbatim>\<open>get_date\<close> returns it although the mode is
  \<^verbatim>\<open>"none"\<close>.
\<close>

theorem get_date_mode_none:
  "init C_locale (kw_example ''none'') = Inr example_none \<and>
   self_selectmode example_none = Mode_none \<and>
   get_date C_locale example_none = ''01/05/20''"
proof -
  have "get_date C_locale example_none = ''01/05/20''"
    by (simp add: get_date_def example_none_def C_locale_def c_strftime_example)
  moreover have "self_selectmode example_none = Mode_none" by (simp add: example_none_def)
  ultimately show ?thesis using init_example(2) by simp
qed

subsection \<open>C7: a day that the month does not have\<close>

text \<open>
  C7 (as amended: for a month the widget can display, 0001-01 to 9999-10, and a day that
  fits a C \<^verbatim>\<open>int\<close>).  Given a year, a month and a day between \<open>INT_MIN\<close> and
  \<open>INT_MAX\<close> that this month does not have, and valid options otherwise
  (\<^verbatim>\<open>selectmode\<close> equal to \<^verbatim>\<open>"day"\<close> or \<^verbatim>\<open>"none"\<close>,
  \<^verbatim>\<open>state\<close> equal to \<^verbatim>\<open>'normal'\<close> or \<^verbatim>\<open>'disabled'\<close>, and
  \<^verbatim>\<open>borderwidth\<close> absent or a value that \<^verbatim>\<open>int\<close> converts to an amount
  from 0 to \<open>INT_MAX\<close>), the constructor raises nothing and returns a widget with no
  selection, with the first of the given month as displayed month, and with the bound
  variable, if any, left as it was passed.
\<close>

theorem init_invalid_day:
  assumes "kw_year kw = Some y" "kw_month kw = Some m" "kw_day kw = Some d"
    and "displayable y m"
    and "fits_c_int d" "\<not> (1 \<le> d \<and> d \<le> days_in_month y m)"
    and "kw_borderwidth kw = None
      \<or> (\<exists>bd. kw_borderwidth kw = Some (Inr bd) \<and> 0 \<le> bd \<and> bd \<le> INT_MAX)"
    and "kw_selectmode kw = None
      \<or> (\<exists>v. kw_selectmode kw = Some v \<and> (py_eq v ''day'' \<or> py_eq v ''none''))"
    and "kw_state kw = None
      \<or> (\<exists>v. kw_state kw = Some v \<and> (py_eq v ''normal'' \<or> py_eq v ''disabled''))"
  shows "\<exists>s. init L kw = Inr s \<and> self_sel_date s = None \<and> self_date s = mk_date y m 1 \<and>
    self_textvariable s = kw_textvariable kw"
proof -
  from assms(4) have v: "1 \<le> y" "y \<le> 9999" "1 \<le> m" "m \<le> 12"
    by (simp_all add: displayable_def)
  then have "fits_c_int y" "fits_c_int m" by (simp_all add: fits_c_int_small)
  then have "date_new y m d = Inl ValueError"
    using assms(5,6) v by (auto simp add: date_new_def MINYEAR_def MAXYEAR_def)
  then have "init_dates L kw = Inr (None, kw_textvariable kw, mk_date y m 1)"
    using assms(1-3) date_new_first[OF v]
    by (simp add: init_dates_def Let_def ebind_def)
  from init_ok[OF this assms(7,8,9)] assms(4) show ?thesis by simp
qed

text \<open>
  The theorem at \<^verbatim>\<open>Calendar(year=2023, month=2, day=30, borderwidth=0)\<close> with a
  \<^verbatim>\<open>selectmode\<close> string that is equal to \<^verbatim>\<open>"day"\<close> without being the literal.
\<close>

theorem init_invalid_day_witness:
  "displayable 2023 2 \<and> fits_c_int 30 \<and> \<not> (1 \<le> (30::int) \<and> 30 \<le> days_in_month 2023 2) \<and>
   (\<exists>s. init C_locale
          ((kw_ymd 2023 2 30)
             \<lparr>kw_selectmode := Some \<lparr>chars = ''day'', interned = False\<rparr>,
              kw_borderwidth := Some (Inr 0)\<rparr>) = Inr s \<and>
        self_sel_date s = None \<and> self_date s = mk_date 2023 2 1)"
proof -
  let ?kw = "(kw_ymd 2023 2 30)
    \<lparr>kw_selectmode := Some \<lparr>chars = ''day'', interned = False\<rparr>,
     kw_borderwidth := Some (Inr 0)\<rparr>"
  have 1: "displayable 2023 2" by (simp add: displayable_def)
  have 2: "fits_c_int 30" by (simp add: fits_c_int_small)
  have 3: "\<not> (1 \<le> (30::int) \<and> 30 \<le> days_in_month 2023 2)"
    by (simp add: month_tables is_leap_def)
  have "\<exists>s. init C_locale ?kw = Inr s \<and> self_sel_date s = None \<and>
    self_date s = mk_date 2023 2 1 \<and> self_textvariable s = kw_textvariable ?kw"
    by (rule init_invalid_day[OF _ _ _ 1 2 3])
      (simp_all add: kw_ymd_def py_eq_def INT_MAX_def)
  then show ?thesis using 1 2 3 by blast
qed

text \<open>
  C7 as stated fails for \<^verbatim>\<open>Calendar(year=9999, month=12, day=32)\<close>: the selection
  is cleared, but the first display needs dates of the year 10000 and the constructor raises
  \<^verbatim>\<open>ValueError\<close>.
\<close>

theorem init_last_month:
  "init C_locale (kw_ymd 9999 12 32) = Inl ValueError"
proof -
  have "date_new 9999 12 32 = Inl ValueError"
    by (simp add: date_new_def MINYEAR_def MAXYEAR_def month_tables fits_c_int_small)
  moreover have "date_new 9999 12 1 = Inr (mk_date 9999 12 1)"
    by (rule date_new_first) simp_all
  ultimately have "init_dates C_locale (kw_ymd 9999 12 32) = Inr (None, None, mk_date 9999 12 1)"
    by (simp add: init_dates_def kw_ymd_def Let_def ebind_def)
  then show ?thesis
    by (simp add: init_def init_borderwidth_def pack_pad_def INT_MAX_def ebind_def kw_ymd_def
        Let_def setitem_state_def display_calendar_def display_dates_last)
qed

text \<open>
  It fails as well for a day that does not fit a C \<^verbatim>\<open>int\<close>:
  \<^verbatim>\<open>Calendar(year=2023, month=2, day=2**31)\<close> raises \<^verbatim>\<open>OverflowError\<close>, which
  the \<^verbatim>\<open>except ValueError\<close> of the constructor does not catch.
\<close>

theorem init_day_overflow:
  "init C_locale (kw_ymd 2023 2 2147483648) = Inl OverflowError"
proof -
  have "date_new 2023 2 2147483648 = Inl OverflowError"
    by (simp add: date_new_def fits_c_int_def INT_MIN_def INT_MAX_def)
  then have "init_dates C_locale (kw_ymd 2023 2 2147483648) = Inl OverflowError"
    by (simp add: init_dates_def kw_ymd_def Let_def ebind_def)
  then show ?thesis
    by (simp add: init_def init_borderwidth_def ebind_def kw_ymd_def Let_def)
qed

subsection \<open>C8: \<open>selection_set\<close> on a widget that takes no selection\<close>

text \<open>
  C8.  When \<^verbatim>\<open>selectmode\<close> is \<^verbatim>\<open>"none"\<close> or the state is
  \<^verbatim>\<open>"disabled"\<close>, \<^verbatim>\<open>selection_set\<close> returns without raising and leaves the
  whole widget as it was, for every argument: the selected date, the displayed month and
  the bound text variable in particular.
\<close>

theorem selection_set_noop:
  assumes "self_selectmode s = Mode_none \<or> self_state s = Disabled"
  shows "selection_set L a s = (None, s)"
  using assms by (auto simp add: selection_set_def)

text \<open>The theorem at the example widget with \<^verbatim>\<open>selectmode="none"\<close>.\<close>

theorem selection_set_noop_witness:
  "(self_selectmode example_none = Mode_none \<or> self_state example_none = Disabled) \<and>
   selection_set C_locale (Arg_str ''02/02/20'') example_none = (None, example_none)"
proof -
  have h: "self_selectmode example_none = Mode_none \<or> self_state example_none = Disabled"
    by (simp add: example_none_def)
  show ?thesis using h selection_set_noop[OF h] by simp
qed

subsection \<open>C9: the \<^verbatim>\<open><<CalendarSelected>>\<close> event\<close>



subsection \<open>C10: the displayed month is a first of a month\<close>

text \<open>
  C10.  In every reachable state the displayed month \<^verbatim>\<open>_date\<close> is a valid date
  whose day is 1, and it still is after each operation that writes it: the four navigation
  callbacks, a click, \<^verbatim>\<open>selection_set\<close> and a write of the text variable (construction
  is the base case of reachability).
\<close>

theorem displayed_month_day_one:
  assumes "reachable L s"
  shows "date_valid (self_date s) \<and> day (self_date s) = 1 \<and>
    day (self_date (snd (next_month s))) = 1 \<and> day (self_date (snd (prev_month s))) = 1 \<and>
    day (self_date (snd (next_year s))) = 1 \<and> day (self_date (snd (prev_year s))) = 1 \<and>
    day (self_date (snd (user_click L rc s))) = 1 \<and>
    day (self_date (snd (selection_set L a s))) = 1 \<and>
    day (self_date (snd (textvariable_trace L s))) = 1 \<and>
    day (self_date (write_textvariable L v s)) = 1"
proof -
  have inv: "date_inv s" using assms by (rule reachable_date_inv)
  show ?thesis
    using inv date_inv_next_month[OF inv] date_inv_prev_month[OF inv]
      date_inv_next_year[OF inv] date_inv_prev_year[OF inv]
      date_inv_user_click[OF inv, of L rc] date_inv_selection_set[OF inv, of L a]
      date_inv_textvariable_trace[OF inv, of L] date_inv_write_textvariable[OF inv, of L v]
    by (simp add: date_inv_def)
qed

text \<open>
  The theorem at the example widget after \<^verbatim>\<open>selection_set("12/31/22")\<close>: the
  displayed month is 1 December 2022.
\<close>

theorem displayed_month_day_one_witness:
  "reachable C_locale (snd (selection_set C_locale (Arg_str ''12/31/22'') example_day)) \<and>
   date_valid (self_date (snd (selection_set C_locale (Arg_str ''12/31/22'') example_day))) \<and>
   day (self_date (snd (selection_set C_locale (Arg_str ''12/31/22'') example_day))) = 1"
proof -
  have r: "reachable C_locale (snd (selection_set C_locale (Arg_str ''12/31/22'') example_day))"
    by (rule r_selection_set[OF reachable_examples(1)]) simp
  show ?thesis
    using r displayed_month_day_one[OF r, of "(0, 0)" Arg_None "[]"] by simp
qed

end
